theory Spec2Isabelle
  imports Complex_Main "HOL-Library.Word"
begin

section \<open>Robot\_r.ino: gyro-guided rotation with an emergency stop\<close>

text \<open>
  The sketch is written for the Arduino Uno (AVR), where \<^verbatim>\<open>float\<close> and \<^verbatim>\<open>double\<close> are both
  IEEE 754 binary32 and every arithmetic operation rounds its exact result to the nearest
  binary32 value, ties to even. The embedding computes the same way: a \<open>float\<close> is a finite
  real, an infinity or NaN, and the operations round. The two zeros are one value: they
  compare equal and no operation of the sketch tells them apart.

  \<^verbatim>\<open>Serial\<close> output and the rate limit inside \<^verbatim>\<open>debugRotate\<close> do not influence control flow and
  are left out; the arguments of a \<^verbatim>\<open>debugRotate\<close> call are evaluated where the call is.
\<close>

subsection \<open>Binary32 arithmetic\<close>

text \<open>
  \<open>round32 x\<close> is the binary32 value nearest to the real \<open>x\<close>. \<open>ulp_exp x\<close> is the exponent
  \<open>q\<close> of the unit in the last place at the magnitude of \<open>x\<close>: \<open>2^(q+23) \<le> \<bar>x\<bar> < 2^(q+24)\<close>,
  with \<open>q = -149\<close> for everything below \<open>2^-125\<close> (the lowest normal binade and the
  subnormals) and never more than 104. The search \<open>binade\<close> runs through the 254 possible
  exponents. The mantissa \<open>x / 2^q\<close> is rounded to an integer, a tie to the even one, and a
  rounded magnitude of \<open>2^128\<close> or more overflows to an infinity.
\<close>

datatype float = Fin real | PosInf | NegInf | NaN

definition pow2 :: "int \<Rightarrow> real" where
  "pow2 q = (if 0 \<le> q then 2 ^ nat q else 1 / 2 ^ nat (- q))"

definition round_even :: "real \<Rightarrow> int" where
  "round_even y =
     (let f = \<lfloor>y\<rfloor>; d = y - of_int f in
      if d < 1 / 2 then f else if 1 / 2 < d then f + 1 else if even f then f else f + 1)"

fun binade :: "nat \<Rightarrow> int \<Rightarrow> real \<Rightarrow> int" where
  "binade 0 q x = q"
| "binade (Suc n) q x = (if x < pow2 (q + 24) then q else binade n (q + 1) x)"

definition ulp_exp :: "real \<Rightarrow> int" where
  "ulp_exp x = binade 253 (- 149) \<bar>x\<bar>"

definition round32 :: "real \<Rightarrow> float" where
  "round32 x =
     (let q = ulp_exp x; y = of_int (round_even (x / pow2 q)) * pow2 q in
      if pow2 128 \<le> \<bar>y\<bar> then (if 0 < x then PosInf else NegInf) else Fin y)"

text \<open>A real number is a binary32 value when rounding leaves it as it is.\<close>

definition is_float :: "real \<Rightarrow> bool" where
  "is_float x \<longleftrightarrow> round32 x = Fin x"

text \<open>
  Negation, addition, subtraction and multiplication, and the comparisons \<^verbatim>\<open><\<close>, \<^verbatim>\<open><=\<close>,
  \<^verbatim>\<open>>\<close>, \<^verbatim>\<open>>=\<close>. A comparison with NaN is false. \<open>f_abs\<close> is the macro of \<^verbatim>\<open>Arduino.h\<close>,
  \<^verbatim>\<open>#define abs(x) ((x)>0?(x):-(x))\<close>.
\<close>

fun f_neg :: "float \<Rightarrow> float" where
  "f_neg (Fin a) = Fin (- a)"
| "f_neg PosInf = NegInf"
| "f_neg NegInf = PosInf"
| "f_neg NaN = NaN"

fun f_add :: "float \<Rightarrow> float \<Rightarrow> float" where
  "f_add (Fin a) (Fin b) = round32 (a + b)"
| "f_add NaN b = NaN"
| "f_add a NaN = NaN"
| "f_add PosInf NegInf = NaN"
| "f_add NegInf PosInf = NaN"
| "f_add PosInf b = PosInf"
| "f_add a PosInf = PosInf"
| "f_add NegInf b = NegInf"
| "f_add a NegInf = NegInf"

definition f_sub :: "float \<Rightarrow> float \<Rightarrow> float" where
  "f_sub a b = f_add a (f_neg b)"

fun f_lt :: "float \<Rightarrow> float \<Rightarrow> bool" where
  "f_lt (Fin a) (Fin b) = (a < b)"
| "f_lt NaN b = False"
| "f_lt a NaN = False"
| "f_lt a NegInf = False"
| "f_lt PosInf b = False"
| "f_lt NegInf b = True"
| "f_lt a PosInf = True"

fun f_le :: "float \<Rightarrow> float \<Rightarrow> bool" where
  "f_le (Fin a) (Fin b) = (a \<le> b)"
| "f_le NaN b = False"
| "f_le a NaN = False"
| "f_le NegInf b = True"
| "f_le a PosInf = True"
| "f_le a NegInf = False"
| "f_le PosInf b = False"

definition f_gt :: "float \<Rightarrow> float \<Rightarrow> bool" where
  "f_gt a b = f_lt b a"

definition f_ge :: "float \<Rightarrow> float \<Rightarrow> bool" where
  "f_ge a b = f_le b a"

fun f_mul :: "float \<Rightarrow> float \<Rightarrow> float" where
  "f_mul (Fin a) (Fin b) = round32 (a * b)"
| "f_mul NaN b = NaN"
| "f_mul a NaN = NaN"
| "f_mul a b =
     (if a = Fin 0 \<or> b = Fin 0 then NaN
      else if f_lt a (Fin 0) = f_lt b (Fin 0) then PosInf else NegInf)"

definition f_abs :: "float \<Rightarrow> float" where
  "f_abs x = (if f_gt x (Fin 0) then x else f_neg x)"

subsection \<open>Constants\<close>

definition Stop :: int where "Stop = 0"
definition RotateRight :: int where "RotateRight = 101"
definition RotateLeft :: int where "RotateLeft = 154"

text \<open>\<^verbatim>\<open>float K_TURN_R = 1.02;\<close> is the binary32 value nearest to 1.02, which is \<open>2139095 / 2^21\<close>.\<close>

definition K_TURN_R :: float where "K_TURN_R = round32 (102 / 100)"
definition K_TURN_L :: float where "K_TURN_L = round32 (102 / 100)"

definition ROT_FAST_PWM :: int where "ROT_FAST_PWM = 200"
definition ROT_MID_PWM :: int where "ROT_MID_PWM = 185"
definition ROT_FINE_PWM :: int where "ROT_FINE_PWM = 180"
definition MIN_ROT_PWM :: int where "MIN_ROT_PWM = 175"

definition ANGLE_TOL :: float where "ANGLE_TOL = Fin 2"
definition STABLE_CNT :: nat where "STABLE_CNT = 10"

definition EN_ACTIVE_LOW :: bool where "EN_ACTIVE_LOW = True"

text \<open>Locals of \<^verbatim>\<open>Rotate\<close> that are compile-time constants.\<close>

definition MIN_PWM :: int where "MIN_PWM = max MIN_ROT_PWM 160"
definition FAST_PWM :: int where "FAST_PWM = ROT_FAST_PWM"
definition MID_PWM :: int where "MID_PWM = ROT_MID_PWM"
definition FINE_PWM :: int where "FINE_PWM = max ROT_FINE_PWM MIN_PWM"
definition TOL :: float where "TOL = ANGLE_TOL"
definition STABLE :: nat where "STABLE = STABLE_CNT"
definition TIMEOUT_MS :: nat where "TIMEOUT_MS = 9000"
definition OVERSHOOT_DEG :: float where "OVERSHOOT_DEG = Fin 6"

definition MICRO_STEPS :: nat where "MICRO_STEPS = 3"
definition MICRO_KICK_MS :: nat where "MICRO_KICK_MS = 8"
definition MICRO_HOLD_MS :: nat where "MICRO_HOLD_MS = 20"
definition MICRO_PAUSE_MS :: nat where "MICRO_PAUSE_MS = 25"
definition NEAR_KICK_MS :: nat where "NEAR_KICK_MS = 12"
definition NEAR_HOLD_MS :: nat where "NEAR_HOLD_MS = 40"
definition NEAR_PAUSE_MS :: nat where "NEAR_PAUSE_MS = 35"

lemmas rot_consts =
  Stop_def RotateRight_def RotateLeft_def ROT_FAST_PWM_def
  ROT_MID_PWM_def ROT_FINE_PWM_def MIN_ROT_PWM_def ANGLE_TOL_def STABLE_CNT_def
  EN_ACTIVE_LOW_def MIN_PWM_def FAST_PWM_def MID_PWM_def FINE_PWM_def TOL_def STABLE_def
  TIMEOUT_MS_def OVERSHOOT_DEG_def MICRO_STEPS_def MICRO_KICK_MS_def MICRO_HOLD_MS_def
  MICRO_PAUSE_MS_def NEAR_KICK_MS_def NEAR_HOLD_MS_def NEAR_PAUSE_MS_def

subsection \<open>The board and its environment\<close>

text \<open>
  The state the motion code reads and writes, with the environment given as functions of time:
  \<^item> \<open>clock\<close>: milliseconds since boot, the value \<^verbatim>\<open>millis()\<close> returns. It is a natural
    number: the 32-bit counter of the board wraps after \<open>2^32\<close> ms, and
    \<^verbatim>\<open>millis() - t0\<close> is the true elapsed time as long as a call does not last that long.
    Only \<^verbatim>\<open>delay\<close> lets time pass; all other statements are instantaneous.
  \<^item> \<open>stop_at\<close>: the time at which the interrupt handler \<^verbatim>\<open>isrStop\<close> sets the flag
    \<^verbatim>\<open>stopReq\<close> (\<open>None\<close>: the STOP button is not pressed). The motion code only reads the
    flag; it is cleared in \<^verbatim>\<open>waitForStartAfterStop\<close>, outside the functions modelled here.
  \<^item> \<open>gyro\<close>: the yaw angle the MPU6050 reports when refreshed at a given time, any
    \<open>float\<close>; \<open>angleZ\<close> is the value of the last \<^verbatim>\<open>mpu.update()\<close>.
  \<^item> \<open>en_pin\<close> (\<open>True\<close> is HIGH), \<open>pwm\<close> (the value passed to \<^verbatim>\<open>analogWrite\<close> for both PWM
    pins) and \<open>shift_reg\<close> (the byte latched into the 74HCT595; \<^verbatim>\<open>shiftOut\<close> takes a
    \<^verbatim>\<open>uint8_t\<close>) are the actuator outputs.
  \<^item> \<open>motor_log\<close>: every call \<^verbatim>\<open>Motor(Dir, Speed)\<close> made so far, most recent first.
\<close>

record world =
  clock :: nat
  stop_at :: "nat option"
  gyro :: "nat \<Rightarrow> float"
  angleZ :: float
  en_pin :: bool
  pwm :: int
  shift_reg :: int
  motor_log :: "(int \<times> int) list"

definition millis :: "world \<Rightarrow> nat" where
  "millis w = clock w"

definition delay :: "nat \<Rightarrow> world \<Rightarrow> world" where
  "delay ms w = w\<lparr>clock := clock w + ms\<rparr>"

definition stopReq :: "world \<Rightarrow> bool" where
  "stopReq w = (case stop_at w of None \<Rightarrow> False | Some s \<Rightarrow> s \<le> clock w)"

definition mpu_update :: "world \<Rightarrow> world" where
  "mpu_update w = w\<lparr>angleZ := gyro w (clock w)\<rparr>"

definition getAngleZ :: "world \<Rightarrow> float" where
  "getAngleZ w = angleZ w"

text \<open>
  \<^verbatim>\<open>
  inline void enableMotors(bool en) {
    if (EN_ACTIVE_LOW) digitalWrite(EN_PIN, en ? LOW : HIGH);
    else               digitalWrite(EN_PIN, en ? HIGH : LOW);
  }
  \<close>
\<close>

definition enableMotors :: "bool \<Rightarrow> world \<Rightarrow> world" where
  "enableMotors en w =
     (if EN_ACTIVE_LOW then w\<lparr>en_pin := (if en then False else True)\<rparr>
      else w\<lparr>en_pin := (if en then True else False)\<rparr>)"

text \<open>
  \<^verbatim>\<open>Motor(Dir, Speed)\<close>: a stop (\<^verbatim>\<open>Speed <= 0 || Dir == Stop\<close>) zeroes both PWM pins,
  latches \<^verbatim>\<open>Stop\<close> and disables the driver; anything else enables the driver, writes the
  duty and latches the direction byte.
\<close>

definition Motor :: "int \<Rightarrow> int \<Rightarrow> world \<Rightarrow> world" where
  "Motor Dir Speed w =
     (let w1 = w\<lparr>motor_log := (Dir, Speed) # motor_log w\<rparr> in
      if Speed \<le> 0 \<or> Dir = Stop
      then enableMotors False (w1\<lparr>pwm := 0, shift_reg := Stop mod 256\<rparr>)
      else (enableMotors True w1)\<lparr>pwm := Speed, shift_reg := Dir mod 256\<rparr>)"

text \<open>
  The actuators are stopped: the last \<^verbatim>\<open>Motor\<close> call was \<^verbatim>\<open>Motor(Stop, 0)\<close>, both PWM
  duties are 0, the shift register holds \<^verbatim>\<open>Stop\<close> and the enable line is at its disabling
  level (HIGH when \<^verbatim>\<open>EN_ACTIVE_LOW\<close>).
\<close>

definition motors_stopped :: "world \<Rightarrow> bool" where
  "motors_stopped w \<longleftrightarrow>
     pwm w = 0 \<and> shift_reg w = Stop \<and> en_pin w = EN_ACTIVE_LOW \<and>
     (case motor_log w of [] \<Rightarrow> False | x # _ \<Rightarrow> x = (Stop, 0))"

text \<open>The value a read of \<^verbatim>\<open>stopReq\<close> gives at time \<open>t\<close>.\<close>

definition stopReq_at :: "world \<Rightarrow> nat \<Rightarrow> bool" where
  "stopReq_at w t = stopReq (w\<lparr>clock := t\<rparr>)"

text \<open>
  A board at rest on the bench, for running the code on concrete inputs: time 0, STOP never
  pressed, yaw constantly 0, actuators off.
\<close>

definition bench :: world where
  "bench = \<lparr>clock = 0, stop_at = None, gyro = (\<lambda>t. Fin 0), angleZ = Fin 0, en_pin = True,
             pwm = 0, shift_reg = Stop, motor_log = []\<rparr>"

text \<open>
  \<^verbatim>\<open>
  inline bool shouldStopNow() {
    if (stopReq) { Motor(Stop, 0); enableMotors(false); return true; }
    return false;
  }
  \<close>
\<close>

definition shouldStopNow :: "world \<Rightarrow> bool \<times> world" where
  "shouldStopNow w =
     (if stopReq w then (True, enableMotors False (Motor Stop 0 w)) else (False, w))"

text \<open>
  \<^verbatim>\<open>
  bool smartDelay(unsigned long ms) {
    unsigned long t0 = millis();
    while (millis() - t0 < ms) {
      if (shouldStopNow()) return false;
      delay(2);
    }
    return true;
  }
  \<close>
\<close>

function smartDelay_loop :: "nat \<Rightarrow> nat \<Rightarrow> world \<Rightarrow> bool \<times> world" where
  "smartDelay_loop t0 ms w =
     (if millis w - t0 < ms
      then (let (stop, w1) = shouldStopNow w in
            if stop then (False, w1) else smartDelay_loop t0 ms (delay 2 w1))
      else (True, w))"
  by pat_completeness auto
termination
  by (relation "measure (\<lambda>(t0, ms, w). t0 + ms - clock w)")
    (auto simp: shouldStopNow_def millis_def delay_def split: if_splits)

definition smartDelay :: "nat \<Rightarrow> world \<Rightarrow> bool \<times> world" where
  "smartDelay ms w = smartDelay_loop (millis w) ms w"

subsection \<open>Angle normalisation\<close>

text \<open>
  \<^verbatim>\<open>
  float norm180(float a) {
    while (a > 180) a -= 360;
    while (a < -180) a += 360;
    return a;
  }
  \<close>
  Each \<^verbatim>\<open>while\<close> is one recursive function. Nothing bounds the number of passes: when \<open>a\<close>
  is so large that \<open>a - 360\<close> rounds back to \<open>a\<close>, the loop does not end. The result is
  \<open>None\<close> when the call does not return.
\<close>

partial_function (option) norm180_down :: "float \<Rightarrow> float option" where
  "norm180_down a = (if f_gt a (Fin 180) then norm180_down (f_sub a (Fin 360)) else Some a)"

partial_function (option) norm180_up :: "float \<Rightarrow> float option" where
  "norm180_up a = (if f_lt a (Fin (- 180)) then norm180_up (f_add a (Fin 360)) else Some a)"

definition norm180 :: "float \<Rightarrow> float option" where
  "norm180 a = (case norm180_down a of None \<Rightarrow> None | Some b \<Rightarrow> norm180_up b)"

subsection \<open>The rotation controller\<close>

text \<open>
  The values \<^verbatim>\<open>Rotate\<close> fixes before its loop (\<open>rot_ctx\<close>) and the variables the loop
  updates (\<open>rot_state\<close>), under the names the source gives them.
\<close>

record rot_ctx =
  targetAngle :: float
  t0 :: nat
  cmdMain :: int
  cmdOpp :: int
  sign0 :: int

record rot_state =
  overshot :: bool
  stableCnt :: nat
  cmd :: int

text \<open>What one pass through the body of \<^verbatim>\<open>while (true)\<close> ends with.\<close>

datatype flow = Return bool | Continue rot_state

text \<open>
  The MICRO zone. \<open>micro_step\<close> is the body of
  \<^verbatim>\<open>for (int i = 0; i < MICRO_STEPS; i++)\<close>; it ends with \<^verbatim>\<open>return false\<close> out of
  \<^verbatim>\<open>Rotate\<close> (\<open>MReturn\<close>), with \<^verbatim>\<open>break\<close> (\<open>MBreak\<close>) or by reaching the end of the
  body (\<open>MNext\<close>). \<open>micro_loop\<close> runs the body for the number of steps still to go;
  its result \<open>(False, _)\<close> stands for \<^verbatim>\<open>return false\<close>. Every function that calls
  \<open>norm180\<close> gives \<open>None\<close> when that call does not return.
\<close>

datatype micro_exit = MReturn | MBreak | MNext

definition micro_step :: "rot_ctx \<Rightarrow> bool \<Rightarrow> world \<Rightarrow> (micro_exit \<times> world) option" where
  "micro_step c ov w =
     (let (stop, w1) = shouldStopNow w in
      if stop then Some (MReturn, w1) else
      let w2 = mpu_update w1 in
      (case norm180 (f_sub (targetAngle c) (getAngleZ w2)) of
         None \<Rightarrow> None
       | Some err2 \<Rightarrow>
          (let ae2 = f_abs err2 in
           if f_le ae2 TOL then Some (MBreak, w2) else
           let cmd2 = (if f_ge err2 (Fin 0) then cmdMain c else cmdOpp c);
               cmd2 = (if ov then cmdOpp c else cmd2);
               w3 = Motor cmd2 FINE_PWM w2;
               (ok, w4) = smartDelay MICRO_KICK_MS w3 in
           if \<not> ok then Some (MReturn, w4) else
           let w5 = Motor cmd2 MIN_PWM w4;
               (ok, w6) = smartDelay MICRO_HOLD_MS w5 in
           if \<not> ok then Some (MReturn, w6) else
           let w7 = Motor Stop 0 w6;
               (ok, w8) = smartDelay MICRO_PAUSE_MS w7 in
           if \<not> ok then Some (MReturn, w8) else
           let w9 = mpu_update w8 in
           (case norm180 (f_sub (targetAngle c) (getAngleZ w9)) of
              None \<Rightarrow> None
            | Some errAfter \<Rightarrow>
                if f_ge errAfter (Fin 0) \<noteq> f_ge err2 (Fin 0) then Some (MBreak, w9)
                else Some (MNext, w9)))))"

fun micro_loop :: "rot_ctx \<Rightarrow> bool \<Rightarrow> nat \<Rightarrow> world \<Rightarrow> (bool \<times> world) option" where
  "micro_loop c ov 0 w = Some (True, w)"
| "micro_loop c ov (Suc n) w =
     (case micro_step c ov w of
        None \<Rightarrow> None
      | Some (MReturn, w1) \<Rightarrow> Some (False, w1)
      | Some (MBreak, w1) \<Rightarrow> Some (True, w1)
      | Some (MNext, w1) \<Rightarrow> micro_loop c ov n w1)"

text \<open>
  After the loop the zone calls
  \<^verbatim>\<open>debugRotate(mpu.getAngleZ(), targetAngle, norm180(targetAngle - mpu.getAngleZ()), MIN_PWM, cmd)\<close>,
  which evaluates \<open>norm180\<close> once more.
\<close>

definition micro_zone :: "rot_ctx \<Rightarrow> rot_state \<Rightarrow> world \<Rightarrow> (flow \<times> world) option" where
  "micro_zone c st w =
     (case micro_loop c (overshot st) MICRO_STEPS w of
        None \<Rightarrow> None
      | Some (ok, w1) \<Rightarrow>
          if \<not> ok then Some (Return False, w1) else
          (case norm180 (f_sub (targetAngle c) (getAngleZ w1)) of
             None \<Rightarrow> None
           | Some err \<Rightarrow> Some (Continue st, w1)))"

definition near_zone :: "rot_ctx \<Rightarrow> rot_state \<Rightarrow> world \<Rightarrow> flow \<times> world" where
  "near_zone c st w =
     (let w1 = Motor (cmd st) FINE_PWM w;
          (ok, w2) = smartDelay NEAR_KICK_MS w1 in
      if \<not> ok then (Return False, w2) else
      let w3 = Motor (cmd st) MIN_PWM w2;
          (ok, w4) = smartDelay NEAR_HOLD_MS w3 in
      if \<not> ok then (Return False, w4) else
      let w5 = Motor Stop 0 w4;
          (ok, w6) = smartDelay NEAR_PAUSE_MS w5 in
      if \<not> ok then (Return False, w6) else (Continue st, w6))"

definition mid_zone :: "rot_ctx \<Rightarrow> rot_state \<Rightarrow> world \<Rightarrow> flow \<times> world" where
  "mid_zone c st w =
     (let w1 = Motor (cmd st) MID_PWM w;
          (ok, w2) = smartDelay 12 w1 in
      if \<not> ok then (Return False, w2) else (Continue st, w2))"

definition far_zone :: "rot_ctx \<Rightarrow> rot_state \<Rightarrow> world \<Rightarrow> flow \<times> world" where
  "far_zone c st w =
     (let w1 = Motor (cmd st) FAST_PWM w;
          (ok, w2) = smartDelay 10 w1 in
      if \<not> ok then (Return False, w2) else (Continue st, w2))"

text \<open>
  The body of \<^verbatim>\<open>while (true)\<close>: stop check, sample, timeout check, tolerance check with the
  stability counter, overshoot latch, then the zone selected by the error magnitude.
\<close>

definition rotate_iter :: "rot_ctx \<Rightarrow> rot_state \<Rightarrow> world \<Rightarrow> (flow \<times> world) option" where
  "rotate_iter c st w =
     (let (stop, w1) = shouldStopNow w in
      if stop then Some (Return False, w1) else
      let w2 = mpu_update w1;
          z = getAngleZ w2 in
      (case norm180 (f_sub (targetAngle c) z) of
         None \<Rightarrow> None
       | Some err \<Rightarrow>
          (let ae = f_abs err;
               sign = (if f_ge err (Fin 0) then 1 else - 1) in
           if millis w2 - t0 c > TIMEOUT_MS then Some (Return False, Motor Stop 0 w2) else
           if f_le ae TOL then
             (let st1 = st\<lparr>stableCnt := stableCnt st + 1\<rparr>;
                  w3 = Motor Stop 0 w2 in
              if stableCnt st1 \<ge> STABLE then Some (Return True, w3) else
              let (ok, w4) = smartDelay 25 w3 in
              if \<not> ok then Some (Return False, w4) else Some (Continue st1, w4))
           else
           let st1 = st\<lparr>stableCnt := 0\<rparr>;
               st2 = (if \<not> overshot st1 \<and> sign \<noteq> sign0 c \<and> f_gt ae OVERSHOOT_DEG
                      then st1\<lparr>overshot := True\<rparr> else st1);
               st3 = st2\<lparr>cmd := (if overshot st2 then cmdOpp c else cmdMain c)\<rparr> in
           if f_lt ae (Fin 10) then
             (if f_lt ae (Fin 6) then micro_zone c st3 w2 else Some (near_zone c st3 w2))
           else if f_lt ae (Fin 25) then Some (mid_zone c st3 w2)
           else Some (far_zone c st3 w2))))"

subsection \<open>Properties of binary32 rounding\<close>

lemma pow2_powr: "pow2 q = 2 powr (real_of_int q)"
proof (cases "0 \<le> q")
  case True
  then show ?thesis
    by (simp add: pow2_def powr_realpow [symmetric])
next
  case False
  have "(2::real) powr real (nat (- q)) = 2 ^ nat (- q)"
    by (rule powr_realpow) simp
  moreover from False have "real (nat (- q)) = - real_of_int q"
    by simp
  ultimately have "(2::real) ^ nat (- q) = 2 powr (- real_of_int q)"
    by simp
  with False show ?thesis
    by (simp add: pow2_def powr_minus_divide)
qed

lemma pow2_pos [simp]: "0 < pow2 q"
  by (simp add: pow2_powr)

lemma pow2_nonneg [simp]: "0 \<le> pow2 q"
  by (simp add: pow2_powr)

lemma pow2_neq0 [simp]: "pow2 q \<noteq> 0"
  by (simp add: pow2_powr)

lemma pow2_abs [simp]: "\<bar>pow2 q\<bar> = pow2 q"
  by (simp add: pow2_powr)

lemma pow2_add: "pow2 (a + b) = pow2 a * pow2 b"
  by (simp add: pow2_powr powr_add)

lemma pow2_mono: "a \<le> b \<Longrightarrow> pow2 a \<le> pow2 b"
  by (simp add: pow2_powr)

lemma pow2_less_iff: "pow2 a < pow2 b \<longleftrightarrow> a < b"
  by (simp add: pow2_powr)

lemma pow2_le_iff: "pow2 a \<le> pow2 b \<longleftrightarrow> a \<le> b"
  by (simp add: pow2_powr)

lemma pow2_nat: "0 \<le> q \<Longrightarrow> pow2 q = of_int (2 ^ nat q)"
  by (simp add: pow2_def)

lemma binade_spec:
  "binade n q x = q' \<Longrightarrow>
     q \<le> q' \<and> q' \<le> q + int n \<and> (q < q' \<longrightarrow> pow2 (q' + 23) \<le> x) \<and>
     (q' < q + int n \<longrightarrow> x < pow2 (q' + 24))"
proof (induction n arbitrary: q)
  case 0
  then show ?case by simp
next
  case (Suc n)
  show ?case
  proof (cases "x < pow2 (q + 24)")
    case True
    with Suc.prems show ?thesis by simp
  next
    case False
    with Suc.prems have "binade n (q + 1) x = q'" by simp
    from Suc.IH [OF this] False show ?thesis
      by (cases "q' = q + 1") (auto simp: add.commute add.left_commute)
  qed
qed

lemma round_even_int [simp]: "round_even (of_int m) = m"
  by (simp add: round_even_def)

lemma round_even_near: "\<bar>of_int (round_even y) - y\<bar> \<le> 1 / 2"
  unfolding round_even_def Let_def by (auto; linarith)

lemma round_even_bound:
  assumes "\<bar>y\<bar> \<le> of_int B"
  shows "\<bar>round_even y\<bar> \<le> B"
proof -
  have "\<bar>of_int (round_even y) - y\<bar> \<le> 1 / 2"
    by (rule round_even_near)
  with assms have "\<bar>real_of_int (round_even y)\<bar> < of_int B + 1"
    by linarith
  then have "\<bar>round_even y\<bar> < B + 1"
    by (metis of_int_1 of_int_abs of_int_add of_int_less_iff)
  then show ?thesis by simp
qed

definition float_form :: "real \<Rightarrow> bool" where
  "float_form x \<longleftrightarrow> (\<exists>m q. x = of_int m * pow2 q \<and> \<bar>m\<bar> < 2 ^ 24 \<and> - 149 \<le> q \<and> q \<le> 104)"

lemma ulp_exp_spec:
  "- 149 \<le> ulp_exp x \<and> ulp_exp x \<le> 104 \<and>
   (- 149 < ulp_exp x \<longrightarrow> pow2 (ulp_exp x + 23) \<le> \<bar>x\<bar>) \<and>
   (ulp_exp x < 104 \<longrightarrow> \<bar>x\<bar> < pow2 (ulp_exp x + 24))"
  using binade_spec [of 253 "- 149" "\<bar>x\<bar>" "ulp_exp x"] by (simp add: ulp_exp_def)

lemma ulp_exp_eq:
  assumes "- 149 \<le> q" "q \<le> 104" "- 149 < q \<Longrightarrow> pow2 (q + 23) \<le> \<bar>x\<bar>"
    and "q < 104 \<Longrightarrow> \<bar>x\<bar> < pow2 (q + 24)"
  shows "ulp_exp x = q"
proof (rule ccontr)
  assume ne: "ulp_exp x \<noteq> q"
  note s = ulp_exp_spec [of x]
  show False
  proof (cases "ulp_exp x < q")
    case True
    with s assms have "\<bar>x\<bar> < pow2 (ulp_exp x + 24)" "pow2 (q + 23) \<le> \<bar>x\<bar>"
      by auto
    then have "pow2 (q + 23) < pow2 (ulp_exp x + 24)" by simp
    with True show False by (simp add: pow2_less_iff)
  next
    case False
    with ne have gt: "q < ulp_exp x" by simp
    with s assms have "pow2 (ulp_exp x + 23) \<le> \<bar>x\<bar>" "\<bar>x\<bar> < pow2 (q + 24)"
      by auto
    then have "pow2 (ulp_exp x + 23) < pow2 (q + 24)" by simp
    with gt show False by (simp add: pow2_less_iff)
  qed
qed

lemma pow2_diff_int:
  assumes "q0 \<le> q"
  shows "pow2 q / pow2 q0 = of_int (2 ^ nat (q - q0))"
proof -
  have "pow2 q = pow2 (q - q0) * pow2 q0"
    using pow2_add [of "q - q0" q0] by simp
  moreover have "pow2 (q - q0) = of_int (2 ^ nat (q - q0))"
    using assms by (simp add: pow2_nat)
  ultimately show ?thesis
    by simp
qed

lemma round32_form:
  assumes "float_form x"
  shows "round32 x = Fin x"
proof -
  from assms obtain m q where x: "x = of_int m * pow2 q" and m: "\<bar>m\<bar> < 2 ^ 24"
    and q: "- 149 \<le> q" "q \<le> 104"
    by (auto simp: float_form_def)
  define q0 where "q0 = ulp_exp x"
  note s = ulp_exp_spec [of x, folded q0_def]
  have absx: "\<bar>x\<bar> = of_int \<bar>m\<bar> * pow2 q"
    by (simp add: x abs_mult)
  have "real_of_int \<bar>m\<bar> < 2 ^ 24"
    using m by (metis of_int_less_iff of_int_numeral of_int_power)
  then have "real_of_int \<bar>m\<bar> * pow2 q < 2 ^ 24 * pow2 q"
    by (rule mult_strict_right_mono) simp
  moreover have "pow2 24 = 2 ^ 24"
    by (simp add: pow2_def)
  ultimately have lt: "\<bar>x\<bar> < pow2 (q + 24)"
    unfolding absx pow2_add [of q 24] by (simp add: mult.commute)
  have le: "q0 \<le> q"
  proof (rule ccontr)
    assume "\<not> q0 \<le> q"
    with q s have "pow2 (q0 + 23) \<le> \<bar>x\<bar>" by auto
    with lt have "pow2 (q0 + 23) < pow2 (q + 24)" by simp
    with \<open>\<not> q0 \<le> q\<close> show False by (simp add: pow2_less_iff)
  qed
  have "x / pow2 q0 = of_int m * (pow2 q / pow2 q0)"
    by (simp add: x)
  also have "\<dots> = of_int (m * 2 ^ nat (q - q0))"
    by (simp add: pow2_diff_int [OF le])
  finally have quot: "x / pow2 q0 = of_int (m * 2 ^ nat (q - q0))" .
  have same: "of_int (round_even (x / pow2 q0)) * pow2 q0 = x"
    unfolding quot round_even_int unfolding quot [symmetric] by simp
  have "pow2 (q + 24) \<le> pow2 128"
    using q by (simp add: pow2_le_iff)
  with lt have "\<not> pow2 128 \<le> \<bar>x\<bar>" by simp
  with same show ?thesis
    by (simp add: round32_def Let_def q0_def [symmetric])
qed

lemma float_form_is_float: "float_form x \<Longrightarrow> is_float x"
  by (simp add: is_float_def round32_form)

lemma float_formI:
  "x = of_int m * pow2 q \<Longrightarrow> \<bar>m\<bar> < 2 ^ 24 \<Longrightarrow> - 149 \<le> q \<Longrightarrow> q \<le> 104 \<Longrightarrow> float_form x"
  unfolding float_form_def by blast

lemma pow2_24: "pow2 24 = 2 ^ 24"
  by (simp add: pow2_def)

lemma round32_Fin_form:
  assumes "round32 x = Fin y"
  shows "float_form y"
proof -
  define q0 where "q0 = ulp_exp x"
  define m where "m = round_even (x / pow2 q0)"
  note s = ulp_exp_spec [of x, folded q0_def]
  from assms have y: "y = of_int m * pow2 q0" and fin: "\<not> pow2 128 \<le> \<bar>of_int m * pow2 q0\<bar>"
    by (auto simp: round32_def Let_def q0_def m_def split: if_splits)
  have m_le: "\<bar>m\<bar> \<le> 2 ^ 24"
  proof (cases "q0 < 104")
    case True
    with s have "\<bar>x\<bar> < pow2 q0 * pow2 24"
      by (simp add: pow2_add)
    then have "\<bar>x\<bar> / pow2 q0 < pow2 24"
      by (simp add: field_simps)
    then have "\<bar>x / pow2 q0\<bar> \<le> of_int (2 ^ 24)"
      by (simp add: pow2_24)
    then show ?thesis
      unfolding m_def by (rule round_even_bound)
  next
    case False
    with s have q0: "q0 = 104" by simp
    have "pow2 128 = pow2 24 * pow2 104"
      using pow2_add [of 24 104] by simp
    with fin q0 have "\<bar>real_of_int m\<bar> * pow2 104 < 2 ^ 24 * pow2 104"
      by (simp add: abs_mult pow2_24)
    then have "\<bar>real_of_int m\<bar> < 2 ^ 24"
      by simp
    then have "\<bar>m\<bar> < 2 ^ 24"
      by (metis of_int_abs of_int_less_iff of_int_numeral of_int_power)
    then show ?thesis by simp
  qed
  show ?thesis
  proof (cases "\<bar>m\<bar> < 2 ^ 24")
    case True
    with y s show ?thesis
      by (intro float_formI [of _ m q0]) (simp_all)
  next
    case False
    with m_le have m: "\<bar>m\<bar> = 2 ^ 24" by simp
    have q0: "q0 < 104"
    proof (rule ccontr)
      assume "\<not> q0 < 104"
      with s have "q0 = 104" by simp
      moreover have "pow2 128 = pow2 24 * pow2 104"
        using pow2_add [of 24 104] by simp
      moreover have "\<bar>real_of_int m\<bar> = 2 ^ 24"
        using m by (metis of_int_abs of_int_numeral of_int_power)
      ultimately show False
        using fin by (simp add: abs_mult pow2_24)
    qed
    have two: "pow2 (q0 + 1) = 2 * pow2 q0"
      using pow2_add [of 1 q0] by (simp add: pow2_def add.commute)
    from m consider "m = 2 ^ 24" | "m = - (2 ^ 24)" by linarith
    then show ?thesis
    proof cases
      case 1
      then have "y = of_int (2 ^ 23) * pow2 (q0 + 1)"
        by (simp add: y two)
      with s q0 show ?thesis
        by (intro float_formI [of _ "2 ^ 23 :: int" "q0 + 1"]) (simp_all)
    next
      case 2
      then have "y = of_int (- (2 ^ 23)) * pow2 (q0 + 1)"
        by (simp add: y two)
      with s q0 show ?thesis
        by (intro float_formI [of _ "- (2 ^ 23) :: int" "q0 + 1"]) (simp_all)
    qed
  qed
qed

lemma round32_bound:
  assumes "\<bar>x\<bar> \<le> pow2 k" "- 149 \<le> k" "k \<le> 127"
  shows "\<exists>y. round32 x = Fin y \<and> \<bar>y\<bar> \<le> pow2 k"
proof -
  define q0 where "q0 = ulp_exp x"
  define m where "m = round_even (x / pow2 q0)"
  note s = ulp_exp_spec [of x, folded q0_def]
  have le: "q0 \<le> k"
  proof (rule ccontr)
    assume "\<not> q0 \<le> k"
    with assms s have "pow2 (q0 + 23) \<le> \<bar>x\<bar>" by auto
    with assms(1) have "pow2 (q0 + 23) \<le> pow2 k" by simp
    with \<open>\<not> q0 \<le> k\<close> show False by (simp add: pow2_le_iff)
  qed
  have "\<bar>x / pow2 q0\<bar> \<le> pow2 k / pow2 q0"
    using assms(1) by (simp add: divide_right_mono)
  then have "\<bar>x / pow2 q0\<bar> \<le> of_int (2 ^ nat (k - q0))"
    by (simp only: pow2_diff_int [OF le])
  then have "\<bar>m\<bar> \<le> 2 ^ nat (k - q0)"
    unfolding m_def by (rule round_even_bound)
  then have "real_of_int \<bar>m\<bar> \<le> of_int (2 ^ nat (k - q0))"
    by (simp only: of_int_le_iff)
  then have "real_of_int \<bar>m\<bar> * pow2 q0 \<le> of_int (2 ^ nat (k - q0)) * pow2 q0"
    by (rule mult_right_mono) simp
  also have "\<dots> = pow2 k"
    using pow2_diff_int [OF le] by (simp add: field_simps)
  finally have bound: "\<bar>of_int m * pow2 q0\<bar> \<le> pow2 k"
    by (simp add: abs_mult)
  have "pow2 k < pow2 128"
    using assms(3) by (simp add: pow2_less_iff)
  with bound have "\<not> pow2 128 \<le> \<bar>of_int m * pow2 q0\<bar>"
    by simp
  then have "round32 x = Fin (of_int m * pow2 q0)"
    by (simp add: round32_def Let_def q0_def [symmetric] m_def [symmetric])
  with bound show ?thesis by blast
qed

lemma round32_eval:
  assumes "- 149 \<le> q" "q \<le> 104" "pow2 (q + 23) \<le> \<bar>x\<bar>" "\<bar>x\<bar> < pow2 (q + 24)"
    and "round_even (x / pow2 q) = m" "\<bar>m\<bar> < 2 ^ 24"
  shows "round32 x = Fin (of_int m * pow2 q)"
proof -
  have q0: "ulp_exp x = q"
    using assms(1-4) by (intro ulp_exp_eq) simp_all
  have "real_of_int \<bar>m\<bar> < 2 ^ 24"
    using assms(6) by (metis of_int_less_iff of_int_numeral of_int_power)
  then have "real_of_int \<bar>m\<bar> * pow2 q < 2 ^ 24 * pow2 q"
    by (rule mult_strict_right_mono) simp
  also have "\<dots> = pow2 (q + 24)"
    by (simp add: pow2_add pow2_24)
  also have "\<dots> \<le> pow2 128"
    using assms(2) by (simp add: pow2_le_iff)
  finally have "\<not> pow2 128 \<le> \<bar>of_int m * pow2 q\<bar>"
    by (simp add: abs_mult)
  then show ?thesis
    by (simp add: round32_def Let_def q0 assms(5))
qed

lemma float_form_int:
  assumes "\<bar>n\<bar> \<le> 2 ^ 24"
  shows "float_form (of_int n)"
proof -
  from assms consider "\<bar>n\<bar> < 2 ^ 24" | "n = 2 ^ 24" | "n = - (2 ^ 24)" by linarith
  then show ?thesis
  proof cases
    case 1
    then show ?thesis
      by (intro float_formI [of _ n 0]) (simp_all add: pow2_def)
  next
    case 2
    then show ?thesis
      by (intro float_formI [of _ "2 ^ 23 :: int" 1]) (simp_all add: pow2_def)
  next
    case 3
    then show ?thesis
      by (intro float_formI [of _ "- (2 ^ 23) :: int" 1]) (simp_all add: pow2_def)
  qed
qed

lemma float_form_neg: "float_form (- x) = float_form x"
proof -
  have "float_form (- x)" if "float_form x" for x
  proof -
    from that obtain m q where "x = of_int m * pow2 q" "\<bar>m\<bar> < 2 ^ 24" "- 149 \<le> q" "q \<le> 104"
      by (auto simp: float_form_def)
    then show ?thesis
      by (intro float_formI [of _ "- m" q]) (simp_all)
  qed
  from this [of x] this [of "- x"] show ?thesis by auto
qed

lemma float_form_step_down:
  assumes "float_form a" "180 < a" "a \<le> 2 ^ 27"
  shows "float_form (a - 360)"
proof -
  from assms(1) obtain m q where a: "a = of_int m * pow2 q" and m: "\<bar>m\<bar> < 2 ^ 24"
    and q: "- 149 \<le> q" "q \<le> 104"
    by (auto simp: float_form_def)
  have small: "\<bar>a - 360\<bar> < a"
    using assms(2) by linarith
  have main: "float_form (a - 360)" if a': "a = of_int m' * pow2 q'" and q': "- 149 \<le> q'" "q' \<le> 3"
    and m': "\<bar>m'\<bar> \<le> 2 ^ 24" for m' q'
  proof -
    have three: "pow2 3 = of_int (2 ^ nat (3 - q')) * pow2 q'"
      using pow2_diff_int [of q' 3] q' by (simp add: field_simps)
    have "pow2 3 = 8" by (simp add: pow2_def)
    with three have e8: "real_of_int (2 ^ nat (3 - q')) * pow2 q' = 8"
      by simp
    have "real_of_int (45 * 2 ^ nat (3 - q')) * pow2 q' =
        45 * (real_of_int (2 ^ nat (3 - q')) * pow2 q')"
      by simp
    also have "\<dots> = 360"
      unfolding e8 by simp
    finally have "360 = of_int (45 * 2 ^ nat (3 - q')) * pow2 q'"
      by simp
    then have diff: "a - 360 = of_int (m' - 45 * 2 ^ nat (3 - q')) * pow2 q'"
      by (simp add: a' algebra_simps)
    have "\<bar>of_int (m' - 45 * 2 ^ nat (3 - q')) * pow2 q'\<bar> < of_int m' * pow2 q'"
      using small unfolding diff [symmetric] a' [symmetric] .
    then have "\<bar>real_of_int (m' - 45 * 2 ^ nat (3 - q'))\<bar> * pow2 q' < of_int m' * pow2 q'"
      by (simp add: abs_mult)
    then have "\<bar>real_of_int (m' - 45 * 2 ^ nat (3 - q'))\<bar> < of_int m'"
      by simp
    then have "\<bar>m' - 45 * 2 ^ nat (3 - q')\<bar> < m'"
      by (metis of_int_abs of_int_less_iff)
    with m' have "\<bar>m' - 45 * 2 ^ nat (3 - q')\<bar> < 2 ^ 24"
      by linarith
    with diff q' show ?thesis
      by (intro float_formI [of _ "m' - 45 * 2 ^ nat (3 - q')" q']) simp_all
  qed
  show ?thesis
  proof (cases "q \<le> 3")
    case True
    with a q m show ?thesis by (intro main [of m q]) simp_all
  next
    case False
    then have le: "3 \<le> q" by simp
    define M where "M = m * 2 ^ nat (q - 3)"
    have "pow2 q = of_int (2 ^ nat (q - 3)) * pow2 3"
      using pow2_diff_int [OF le] by (simp add: field_simps)
    then have a3: "a = of_int M * pow2 3"
      by (simp add: a M_def)
    have "pow2 3 = 8" by (simp add: pow2_def)
    with a3 have a8: "a = real_of_int M * 8" by simp
    with assms(2,3) have "0 < real_of_int M" "real_of_int M \<le> 2 ^ 24"
      by simp_all
    then have "\<bar>real_of_int M\<bar> \<le> 2 ^ 24"
      by simp
    then have "\<bar>M\<bar> \<le> 2 ^ 24"
      by (metis of_int_abs of_int_le_iff of_int_numeral of_int_power)
    with a3 show ?thesis
      by (intro main [of M 3]) simp_all
  qed
qed

lemma float_form_step_up:
  assumes "float_form a" "a < - 180" "- (2 ^ 27) \<le> a"
  shows "float_form (a + 360)"
proof -
  have "float_form (- a - 360)"
    using assms by (intro float_form_step_down) (simp_all add: float_form_neg)
  then have "float_form (- (a + 360))"
    by (simp add: algebra_simps)
  then show ?thesis
    by (simp only: float_form_neg)
qed

text \<open>
  Rounding is exact on binary32 values, and whole numbers up to \<open>2^24\<close> are binary32
  values. These rules run the arithmetic on concrete numbers.
\<close>

lemma round32_exact: "is_float x \<Longrightarrow> round32 x = Fin x"
  by (simp add: is_float_def)

lemma is_float_form: "is_float x \<longleftrightarrow> float_form x"
  using round32_Fin_form [of x x] round32_form [of x] by (auto simp: is_float_def)

lemma is_float_int: "\<bar>n\<bar> \<le> 2 ^ 24 \<Longrightarrow> is_float (of_int n)"
  by (simp add: is_float_form float_form_int)

lemma is_float_numeral:
  "(numeral k :: int) \<le> 16777216 \<Longrightarrow> is_float (numeral k)"
  "(numeral k :: int) \<le> 16777216 \<Longrightarrow> is_float (- numeral k)"
  "is_float 0" "is_float 1" "is_float (- 1)"
  using is_float_int [of "numeral k"] is_float_int [of "- numeral k"] is_float_int [of 0]
    is_float_int [of 1] is_float_int [of "- 1"]
  by simp_all

lemma is_float_dyadic:
  "\<bar>m\<bar> < 2 ^ 24 \<Longrightarrow> - 149 \<le> q \<Longrightarrow> q \<le> 104 \<Longrightarrow> is_float (of_int m * pow2 q)"
  unfolding is_float_form by (rule float_formI [of _ m q]) simp_all

lemma f_sub_Fin [simp]: "f_sub (Fin a) (Fin b) = round32 (a - b)"
  by (simp add: f_sub_def)

lemma f_gt_Fin [simp]: "f_gt (Fin a) (Fin b) = (b < a)"
  by (simp add: f_gt_def)

lemma f_ge_Fin [simp]: "f_ge (Fin a) (Fin b) = (b \<le> a)"
  by (simp add: f_ge_def)

lemma f_abs_Fin [simp]: "f_abs (Fin a) = Fin \<bar>a\<bar>"
  by (simp add: f_abs_def)

lemmas float_eval = round32_exact is_float_numeral

lemma K_TURN_val: "K_TURN_R = Fin (2139095 / 2097152)" "K_TURN_L = Fin (2139095 / 2097152)"
  using round32_eval [of "- 23" "102 / 100" 8556380]
  by (simp_all add: K_TURN_R_def K_TURN_L_def pow2_def round_even_def)

subsection \<open>Properties of \<open>norm180\<close>\<close>

lemma norm180_down_exact:
  assumes "float_form a" "a \<le> 180 + 360 * real n" "a \<le> 2 ^ 27"
  shows "\<exists>k. norm180_down (Fin a) = Some (Fin (a - 360 * real k)) \<and>
           a - 360 * real k \<le> 180 \<and> (180 < a \<longrightarrow> - 180 < a - 360 * real k) \<and>
           (a \<le> 180 \<longrightarrow> k = 0) \<and> float_form (a - 360 * real k)"
  using assms
proof (induction n arbitrary: a)
  case 0
  then have "norm180_down (Fin a) = Some (Fin a)"
    by (simp add: norm180_down.simps [of "Fin a"])
  with 0 show ?case
    by (intro exI [of _ 0]) simp
next
  case (Suc n)
  show ?case
  proof (cases "180 < a")
    case False
    then have "norm180_down (Fin a) = Some (Fin a)"
      by (simp add: norm180_down.simps [of "Fin a"])
    with False Suc.prems show ?thesis
      by (intro exI [of _ 0]) simp
  next
    case True
    have form: "float_form (a - 360)"
      using Suc.prems(1) True Suc.prems(3) by (rule float_form_step_down)
    then have step: "norm180_down (Fin a) = norm180_down (Fin (a - 360))"
      using True by (simp add: norm180_down.simps [of "Fin a"] round32_form)
    have "a - 360 \<le> 180 + 360 * real n" "a - 360 \<le> 2 ^ 27"
      using Suc.prems by simp_all
    from Suc.IH [OF form this] obtain k where k:
      "norm180_down (Fin (a - 360)) = Some (Fin (a - 360 - 360 * real k))"
      "a - 360 - 360 * real k \<le> 180" "180 < a - 360 \<longrightarrow> - 180 < a - 360 - 360 * real k"
      "a - 360 \<le> 180 \<longrightarrow> k = 0" "float_form (a - 360 - 360 * real k)"
      by blast
    have eq: "a - 360 - 360 * real k = a - 360 * real (Suc k)"
      by (simp add: algebra_simps)
    have low: "- 180 < a - 360 - 360 * real k"
      using k(3,4) True by (cases "180 < a - 360") auto
    from k(1,2,5) low True step show ?thesis
      unfolding eq by (intro exI [of _ "Suc k"]) simp
  qed
qed

lemma norm180_up_exact:
  assumes "float_form a" "- 180 - 360 * real n \<le> a" "- (2 ^ 27) \<le> a"
  shows "\<exists>k. norm180_up (Fin a) = Some (Fin (a + 360 * real k)) \<and>
           - 180 \<le> a + 360 * real k \<and> (a < - 180 \<longrightarrow> a + 360 * real k < 180) \<and>
           (- 180 \<le> a \<longrightarrow> k = 0) \<and> float_form (a + 360 * real k)"
  using assms
proof (induction n arbitrary: a)
  case 0
  then have "norm180_up (Fin a) = Some (Fin a)"
    by (simp add: norm180_up.simps [of "Fin a"])
  with 0 show ?case
    by (intro exI [of _ 0]) simp
next
  case (Suc n)
  show ?case
  proof (cases "a < - 180")
    case False
    then have "norm180_up (Fin a) = Some (Fin a)"
      by (simp add: norm180_up.simps [of "Fin a"])
    with False Suc.prems show ?thesis
      by (intro exI [of _ 0]) simp
  next
    case True
    have form: "float_form (a + 360)"
      using Suc.prems(1) True Suc.prems(3) by (rule float_form_step_up)
    then have step: "norm180_up (Fin a) = norm180_up (Fin (a + 360))"
      using True by (simp add: norm180_up.simps [of "Fin a"] round32_form)
    have "- 180 - 360 * real n \<le> a + 360" "- (2 ^ 27) \<le> a + 360"
      using Suc.prems by simp_all
    from Suc.IH [OF form this] obtain k where k:
      "norm180_up (Fin (a + 360)) = Some (Fin (a + 360 + 360 * real k))"
      "- 180 \<le> a + 360 + 360 * real k" "a + 360 < - 180 \<longrightarrow> a + 360 + 360 * real k < 180"
      "- 180 \<le> a + 360 \<longrightarrow> k = 0" "float_form (a + 360 + 360 * real k)"
      by blast
    have eq: "a + 360 + 360 * real k = a + 360 * real (Suc k)"
      by (simp add: algebra_simps)
    have high: "a + 360 + 360 * real k < 180"
      using k(3,4) True by (cases "a + 360 < - 180") auto
    from k(1,2,5) high True step show ?thesis
      unfolding eq by (intro exI [of _ "Suc k"]) simp
  qed
qed

lemma norm180_exact:
  assumes "float_form a" "\<bar>a\<bar> \<le> 2 ^ 27"
  shows "\<exists>r k. norm180 (Fin a) = Some (Fin r) \<and> - 180 \<le> r \<and> r \<le> 180 \<and>
           r = a + 360 * real_of_int k \<and> float_form r \<and>
           (180 < a \<longrightarrow> - 180 < r) \<and> (a < - 180 \<longrightarrow> r < 180) \<and>
           (- 180 \<le> a \<and> a \<le> 180 \<longrightarrow> r = a)"
proof -
  obtain n where n: "a \<le> 180 + 360 * real n"
  proof -
    obtain n where "a \<le> real n"
      using real_arch_simple by blast
    then have "a \<le> 180 + 360 * real n"
      by (simp add: add_increasing mult_le_cancel_right1)
    with that show ?thesis by blast
  qed
  from assms have "a \<le> 2 ^ 27" by simp
  from norm180_down_exact [OF assms(1) n this] obtain k where k:
    "norm180_down (Fin a) = Some (Fin (a - 360 * real k))"
    "a - 360 * real k \<le> 180" "180 < a \<longrightarrow> - 180 < a - 360 * real k"
    "a \<le> 180 \<longrightarrow> k = 0" "float_form (a - 360 * real k)"
    by blast
  define b where "b = a - 360 * real k"
  obtain l where l: "- 180 - 360 * real l \<le> b"
  proof -
    obtain l where "- b \<le> real l"
      using real_arch_simple by blast
    then have "- b \<le> 180 + 360 * real l"
      by (simp add: add_increasing mult_le_cancel_right1)
    then have "- 180 - 360 * real l \<le> b" by simp
    with that show ?thesis by blast
  qed
  have low: "- (2 ^ 27) \<le> b"
    using k(3,4) assms(2) unfolding b_def by (cases "180 < a") auto
  from norm180_up_exact [OF k(5) [folded b_def] l low] obtain j where j:
    "norm180_up (Fin b) = Some (Fin (b + 360 * real j))"
    "- 180 \<le> b + 360 * real j" "b < - 180 \<longrightarrow> b + 360 * real j < 180"
    "- 180 \<le> b \<longrightarrow> j = 0" "float_form (b + 360 * real j)"
    by blast
  define r where "r = b + 360 * real j"
  have res: "norm180 (Fin a) = Some (Fin r)"
    by (simp add: norm180_def k(1) [folded b_def] j(1) r_def)
  have cong: "r = a + 360 * real_of_int (int j - int k)"
    by (simp add: r_def b_def algebra_simps)
  have up: "r \<le> 180"
    using j(3,4) k(2) unfolding r_def b_def by (cases "a - 360 * real k < - 180") auto
  have c1: "180 < a \<longrightarrow> - 180 < r"
    using k(3) j(4) unfolding r_def b_def by auto
  have c2: "a < - 180 \<longrightarrow> r < 180"
    using k(4) j(3) unfolding r_def b_def by auto
  have c3: "- 180 \<le> a \<and> a \<le> 180 \<longrightarrow> r = a"
    using k(4) j(4) unfolding r_def b_def by auto
  from res j(2,5) up cong c1 c2 c3 show ?thesis
    unfolding r_def [symmetric] by blast
qed

lemma norm180_down_stuck:
  assumes "f_gt a (Fin 180)" "f_sub a (Fin 360) = a"
  shows "norm180_down a = None"
proof -
  have "x \<noteq> a" if "norm180_down x = Some y" for x y
    using that
  proof (induction rule: norm180_down.raw_induct [rotated 1, consumes 1])
    case (1 f x y)
    show ?case
    proof
      assume "x = a"
      with 1(2) assms have "f a = Some y" by simp
      from 1(1) [OF this] show False by simp
    qed
  qed
  then show ?thesis
    by (cases "norm180_down a") auto
qed

lemma norm180_up_stuck:
  assumes "f_lt a (Fin (- 180))" "f_add a (Fin 360) = a"
  shows "norm180_up a = None"
proof -
  have "x \<noteq> a" if "norm180_up x = Some y" for x y
    using that
  proof (induction rule: norm180_up.raw_induct [rotated 1, consumes 1])
    case (1 f x y)
    show ?case
    proof
      assume "x = a"
      with 1(2) assms have "f a = Some y" by simp
      from 1(1) [OF this] show False by simp
    qed
  qed
  then show ?thesis
    by (cases "norm180_up a") auto
qed

lemma norm180_NaN: "norm180 NaN = Some NaN"
  by (simp add: norm180_def norm180_down.simps [of NaN] norm180_up.simps [of NaN] f_gt_def)

lemma norm180_PosInf: "norm180 PosInf = None"
  by (simp add: norm180_def norm180_down_stuck f_gt_def f_sub_def)

lemma norm180_NegInf: "norm180 NegInf = None"
  by (simp add: norm180_def norm180_down.simps [of NegInf] norm180_up_stuck f_gt_def)

lemma norm180_huge: "norm180 (Fin 10000000000) = None"
proof -
  have "round32 (10000000000 - 360) = Fin (of_int 9765625 * pow2 10)"
    by (rule round32_eval) (simp_all add: pow2_def round_even_def)
  then have "f_sub (Fin 10000000000) (Fin 360) = Fin 10000000000"
    by (simp add: pow2_def)
  then show ?thesis
    by (simp add: norm180_def norm180_down_stuck)
qed

lemma norm180_drift: "norm180 (Fin 134218096) = Some (Fin 8)"
proof -
  have "round32 (134218096 - 360) = Fin (of_int 8388608 * pow2 4)"
    by (rule round32_eval) (simp_all add: pow2_def round_even_def)
  then have step: "round32 134217736 = Fin 134217728"
    by (simp add: pow2_def)
  have "float_form (real_of_int 8388608 * pow2 4)"
    by (rule float_formI [of _ 8388608 4]) simp_all
  then have form: "float_form 134217728"
    by (simp add: pow2_def)
  from norm180_exact [OF form] obtain r k where r: "norm180 (Fin 134217728) = Some (Fin r)"
    "- 180 \<le> r" "r \<le> 180" "r = 134217728 + 360 * real_of_int k"
    by auto
  from r(2-4) have "real_of_int (- 372828) < real_of_int k" "real_of_int k < real_of_int (- 372826)"
    by simp_all
  then have "- 372828 < k" "k < - 372826"
    by (simp_all only: of_int_less_iff)
  then have "k = - 372827" by simp
  with r have "norm180 (Fin 134217728) = Some (Fin 8)" by simp
  then obtain b where b: "norm180_down (Fin 134217728) = Some b" "norm180_up b = Some (Fin 8)"
    by (auto simp: norm180_def split: option.splits)
  have "norm180_down (Fin 134218096) = norm180_down (Fin 134217728)"
    by (subst norm180_down.simps) (simp add: step)
  with b show ?thesis
    by (simp add: norm180_def)
qed

text \<open>
  Claim C9, as amended: for every binary32 input of magnitude at most \<open>2^27\<close>, \<open>norm180\<close>
  returns, and its result is a binary32 value of the closed interval \<open>[-180, 180]\<close> that
  differs from the input by a whole multiple of 360. (Up to \<open>2^27\<close> every subtraction and
  addition of 360 in the loops is exact.)
\<close>

theorem norm180_closed_range:
  assumes "is_float a" and "\<bar>a\<bar> \<le> 2 ^ 27"
  shows "\<exists>r k. norm180 (Fin a) = Some (Fin r) \<and> is_float r \<and> - 180 \<le> r \<and> r \<le> 180 \<and>
           r = a + 360 * real_of_int k"
proof -
  from assms(1) have "float_form a"
    by (simp add: is_float_form)
  from norm180_exact [OF this assms(2)] show ?thesis
    unfolding is_float_form by blast
qed

text \<open>
  The theorem at \<open>-540\<close>, where the second loop runs once and stops at \<open>-180\<close>.
\<close>

theorem norm180_closed_range_witness:
  "is_float (- 540) \<and> \<bar>- 540 :: real\<bar> \<le> 2 ^ 27 \<and>
   norm180 (Fin (- 540)) = Some (Fin (- 180)) \<and>
   (\<exists>r k. norm180 (Fin (- 540)) = Some (Fin r) \<and> is_float r \<and> - 180 \<le> r \<and> r \<le> 180 \<and>
      r = - 540 + 360 * real_of_int k)"
proof -
  have f: "is_float (- 540)"
    by (simp add: float_eval)
  have run: "norm180 (Fin (- 540)) = Some (Fin (- 180))"
    by (simp add: norm180_def norm180_down.simps norm180_up.simps float_eval)
  from norm180_closed_range [OF f] run show ?thesis
    using f by simp
qed

text \<open>
  Claim C9 as stated fails in three ways. The second loop tests \<^verbatim>\<open>a < -180\<close>, so \<open>-180\<close>
  passes both loops unchanged and the result is not greater than \<open>-180\<close>. Above \<open>2^27\<close> the
  spacing of binary32 values is 16 and \<open>a - 360\<close> is rounded: from \<open>134218096 = 2^27 + 368\<close>
  the first pass gives \<open>2^27\<close> instead of \<open>2^27 + 8\<close> and the result is 8, where the input is
  16 modulo 360. At \<open>10^10\<close> the spacing is 1024, \<open>a - 360\<close> rounds back to \<open>a\<close> and the
  call never returns.
\<close>

theorem norm180_minus180_counterexample:
  "norm180 (Fin (- 180)) = Some (Fin (- 180)) \<and>
   norm180 (Fin 134218096) = Some (Fin 8) \<and>
   (\<nexists>k. (8 :: real) = 134218096 + 360 * real_of_int k) \<and>
   norm180 (Fin 10000000000) = None"
proof -
  have a: "norm180 (Fin (- 180)) = Some (Fin (- 180))"
    by (simp add: norm180_def norm180_down.simps norm180_up.simps)
  have b: "\<nexists>k. (8 :: real) = 134218096 + 360 * real_of_int k"
  proof
    assume "\<exists>k. (8 :: real) = 134218096 + 360 * real_of_int k"
    then obtain k where "(8 :: real) = 134218096 + 360 * real_of_int k" ..
    then have "real_of_int (360 * k) = real_of_int (- 134218088)"
      by simp
    then have "360 * k = - 134218088"
      by (simp only: of_int_eq_iff)
    then show False by presburger
  qed
  from a b norm180_drift norm180_huge show ?thesis
    by blast
qed

subsection \<open>Basic facts about the board operations\<close>

text \<open>The equations that run the board operations on a concrete board.\<close>

lemmas board_defs =
  smartDelay_def smartDelay_loop.simps shouldStopNow_def stopReq_def millis_def delay_def
  Motor_def enableMotors_def mpu_update_def getAngleZ_def motors_stopped_def stopReq_at_def

declare smartDelay_loop.simps [simp del]

text \<open>
  Why the clock can be a natural number: on the board \<^verbatim>\<open>millis() - t0\<close> is computed on
  32-bit unsigned values, and that difference is the elapsed time whenever less than \<open>2^32\<close>
  ms have passed, also across a wrap of the counter.
\<close>

lemma elapsed_unsigned:
  fixes t ts :: nat
  assumes "ts \<le> t" and "t - ts < 2 ^ 32"
  shows "unat ((word_of_nat t :: 32 word) - word_of_nat ts) = t - ts"
proof -
  have "(word_of_nat t :: 32 word) - word_of_nat ts = word_of_nat (t - ts)"
    using assms(1) by (simp add: of_nat_diff)
  moreover have "unat (word_of_nat (t - ts) :: 32 word) = t - ts"
    using assms(2) by (simp add: unat_of_nat take_bit_nat_eq_self)
  ultimately show ?thesis by simp
qed

lemma enableMotors_sel [simp]:
  "clock (enableMotors b w) = clock w"
  "stop_at (enableMotors b w) = stop_at w"
  "gyro (enableMotors b w) = gyro w"
  "angleZ (enableMotors b w) = angleZ w"
  "pwm (enableMotors b w) = pwm w"
  "shift_reg (enableMotors b w) = shift_reg w"
  "motor_log (enableMotors b w) = motor_log w"
  "en_pin (enableMotors b w) = (\<not> b)"
  by (simp_all add: enableMotors_def EN_ACTIVE_LOW_def)

lemma Motor_sel [simp]:
  "clock (Motor d s w) = clock w"
  "stop_at (Motor d s w) = stop_at w"
  "gyro (Motor d s w) = gyro w"
  "angleZ (Motor d s w) = angleZ w"
  "motor_log (Motor d s w) = (d, s) # motor_log w"
  by (simp_all add: Motor_def Let_def)

lemma mpu_update_sel [simp]:
  "clock (mpu_update w) = clock w"
  "stop_at (mpu_update w) = stop_at w"
  "gyro (mpu_update w) = gyro w"
  "angleZ (mpu_update w) = gyro w (clock w)"
  "pwm (mpu_update w) = pwm w"
  "shift_reg (mpu_update w) = shift_reg w"
  "en_pin (mpu_update w) = en_pin w"
  "motor_log (mpu_update w) = motor_log w"
  by (simp_all add: mpu_update_def)

lemma delay_sel [simp]:
  "clock (delay n w) = clock w + n"
  "stop_at (delay n w) = stop_at w"
  "gyro (delay n w) = gyro w"
  "angleZ (delay n w) = angleZ w"
  "pwm (delay n w) = pwm w"
  "shift_reg (delay n w) = shift_reg w"
  "en_pin (delay n w) = en_pin w"
  "motor_log (delay n w) = motor_log w"
  by (simp_all add: delay_def)

lemma smartDelay_loop_clock:
  "smartDelay_loop ts ms w = (True, w') \<Longrightarrow> ts \<le> clock w \<Longrightarrow> ts + ms \<le> clock w' \<and> clock w \<le> clock w' \<and> gyro w' = gyro w \<and> stop_at w' = stop_at w"
proof (induction ts ms w rule: smartDelay_loop.induct)
  case (1 ts ms w)
  show ?case
  proof (cases "millis w - ts < ms")
    case False
    with "1.prems" show ?thesis
      by (auto simp add: smartDelay_loop.simps [of ts ms w] millis_def)
  next
    case True
    show ?thesis
    proof (cases "stopReq w")
      case True
      with \<open>millis w - ts < ms\<close> "1.prems" show ?thesis
        by (simp add: smartDelay_loop.simps [of ts ms w] shouldStopNow_def)
    next
      case False
      with True "1.prems" have "smartDelay_loop ts ms (delay 2 w) = (True, w')"
        by (simp add: smartDelay_loop.simps [of ts ms w] shouldStopNow_def)
      with "1.IH" [of "(False, w)" False w] True False "1.prems" show ?thesis
        by (simp add: shouldStopNow_def)
    qed
  qed
qed

lemma smartDelay_clock:
  "smartDelay ms w = (True, w') \<Longrightarrow> clock w + ms \<le> clock w' \<and> gyro w' = gyro w \<and> stop_at w' = stop_at w"
  unfolding smartDelay_def millis_def using smartDelay_loop_clock [of "clock w" ms w w'] by simp

lemma smartDelay_loop_char:
  assumes "smartDelay_loop ts ms w = (r, w')" and "ts \<le> clock w"
  shows "\<exists>k. clock w' = clock w + 2 * k \<and>
           (\<forall>j<k. \<not> stopReq_at w (clock w + 2 * j) \<and> clock w + 2 * j - ts < ms) \<and>
           (if r then ms \<le> clock w' - ts \<and> w' = w\<lparr>clock := clock w'\<rparr>
            else clock w' - ts < ms \<and> stopReq_at w (clock w') \<and>
                 w' = enableMotors False (Motor Stop 0 (w\<lparr>clock := clock w'\<rparr>)))"
  using assms
proof (induction ts ms w arbitrary: r w' rule: smartDelay_loop.induct)
  case (1 ts ms w)
  show ?case
  proof (cases "millis w - ts < ms")
    case False
    with "1.prems" have "r" "w' = w"
      by (simp_all add: smartDelay_loop.simps [of ts ms w])
    with False show ?thesis
      by (intro exI [of _ 0]) (simp add: millis_def)
  next
    case running: True
    show ?thesis
    proof (cases "stopReq w")
      case True
      with running "1.prems" have "\<not> r" "w' = enableMotors False (Motor Stop 0 w)"
        by (simp_all add: smartDelay_loop.simps [of ts ms w] shouldStopNow_def)
      with True running show ?thesis
        by (intro exI [of _ 0]) (simp add: millis_def stopReq_at_def)
    next
      case False
      with running "1.prems" have rec: "smartDelay_loop ts ms (delay 2 w) = (r, w')"
        by (simp add: smartDelay_loop.simps [of ts ms w] shouldStopNow_def)
      from "1.IH" [of "(False, w)" False w r w'] running False rec "1.prems"
      obtain k where k: "clock w' = clock w + 2 + 2 * k"
        and free: "\<forall>j<k. \<not> stopReq_at (delay 2 w) (clock w + 2 + 2 * j) \<and> clock w + 2 + 2 * j - ts < ms"
        and fin: "if r then ms \<le> clock w' - ts \<and> w' = (delay 2 w)\<lparr>clock := clock w'\<rparr>
            else clock w' - ts < ms \<and> stopReq_at (delay 2 w) (clock w') \<and>
                 w' = enableMotors False (Motor Stop 0 ((delay 2 w)\<lparr>clock := clock w'\<rparr>))"
        by (auto simp: shouldStopNow_def)
      have upd: "\<And>t. (delay 2 w)\<lparr>clock := t\<rparr> = w\<lparr>clock := t\<rparr>"
        by (simp add: delay_def)
      have at: "\<And>t. stopReq_at (delay 2 w) t = stopReq_at w t"
        by (simp add: stopReq_at_def upd)
      from fin have fin': "if r then ms \<le> clock w' - ts \<and> w' = w\<lparr>clock := clock w'\<rparr>
            else clock w' - ts < ms \<and> stopReq_at w (clock w') \<and>
                 w' = enableMotors False (Motor Stop 0 (w\<lparr>clock := clock w'\<rparr>))"
        by (simp only: at upd)
      have k': "clock w' = clock w + 2 * Suc k"
        using k by simp
      have "\<forall>j<Suc k. \<not> stopReq_at w (clock w + 2 * j) \<and> clock w + 2 * j - ts < ms"
      proof (intro allI impI)
        fix j assume "j < Suc k"
        show "\<not> stopReq_at w (clock w + 2 * j) \<and> clock w + 2 * j - ts < ms"
        proof (cases j)
          case 0
          with False running show ?thesis by (simp add: stopReq_at_def millis_def)
        next
          case (Suc i)
          with \<open>j < Suc k\<close> free [rule_format, of i] show ?thesis by (simp add: at)
        qed
      qed
      with k' fin' show ?thesis
        by blast
    qed
  qed
qed

lemma smartDelay_char:
  assumes "smartDelay ms w = (r, w')"
  shows "\<exists>k. clock w' = clock w + 2 * k \<and>
           (\<forall>j<k. \<not> stopReq_at w (clock w + 2 * j) \<and> 2 * j < ms) \<and>
           (if r then ms \<le> 2 * k \<and> w' = w\<lparr>clock := clock w + 2 * k\<rparr>
            else 2 * k < ms \<and> stopReq_at w (clock w + 2 * k) \<and>
                 w' = enableMotors False (Motor Stop 0 (w\<lparr>clock := clock w + 2 * k\<rparr>)))"
proof -
  from assms have "smartDelay_loop (clock w) ms w = (r, w')"
    by (simp add: smartDelay_def millis_def)
  from smartDelay_loop_char [OF this] obtain k where "clock w' = clock w + 2 * k"
    "\<forall>j<k. \<not> stopReq_at w (clock w + 2 * j) \<and> clock w + 2 * j - clock w < ms"
    "if r then ms \<le> clock w' - clock w \<and> w' = w\<lparr>clock := clock w'\<rparr>
            else clock w' - clock w < ms \<and> stopReq_at w (clock w') \<and>
                 w' = enableMotors False (Motor Stop 0 (w\<lparr>clock := clock w'\<rparr>))"
    by auto
  then show ?thesis
    by (intro exI [of _ k]) (simp split: if_splits)
qed

lemma smartDelay_True_exact:
  assumes "smartDelay ms w = (True, w')"
  shows "w' = w\<lparr>clock := clock w + 2 * ((ms + 1) div 2)\<rparr>"
proof -
  from smartDelay_char [OF assms] obtain k where
    free: "\<forall>j<k. \<not> stopReq_at w (clock w + 2 * j) \<and> 2 * j < ms"
    and fin: "ms \<le> 2 * k" "w' = w\<lparr>clock := clock w + 2 * k\<rparr>"
    by auto
  have "k = (ms + 1) div 2"
  proof (cases k)
    case 0
    with fin show ?thesis by simp
  next
    case (Suc i)
    with free [rule_format, of i] have "2 * i < ms" by simp
    with fin Suc show ?thesis by linarith
  qed
  with fin show ?thesis by simp
qed

lemma smartDelay_False_exact:
  assumes "smartDelay ms w = (False, w')"
  shows "\<exists>k. 2 * k < ms \<and> stopReq_at w (clock w + 2 * k) \<and>
           w' = enableMotors False (Motor Stop 0 (w\<lparr>clock := clock w + 2 * k\<rparr>))"
  using smartDelay_char [OF assms] by auto

lemma shouldStopNow_False: "shouldStopNow w = (False, w') \<Longrightarrow> w' = w \<and> \<not> stopReq w"
  by (simp add: shouldStopNow_def split: if_splits)

lemma shouldStopNow_True:
  "shouldStopNow w = (True, w') \<Longrightarrow> w' = enableMotors False (Motor Stop 0 w) \<and> stopReq w"
  by (simp add: shouldStopNow_def split: if_splits)

lemma stopReq_upd [simp]:
  "stopReq (enableMotors b w) = stopReq w"
  "stopReq (Motor d s w) = stopReq w"
  "stopReq (mpu_update w) = stopReq w"
  by (simp_all add: stopReq_def split: option.splits)

lemma stopReq_at_upd [simp]:
  "stopReq_at (enableMotors b w) t = stopReq_at w t"
  "stopReq_at (Motor d s w) t = stopReq_at w t"
  "stopReq_at (mpu_update w) t = stopReq_at w t"
  "stopReq_at (w\<lparr>clock := u\<rparr>) t = stopReq_at w t"
  by (simp_all add: stopReq_at_def stopReq_def split: option.splits)

lemma stopReq_clock [simp]: "stopReq (w\<lparr>clock := t\<rparr>) = stopReq_at w t"
  by (simp add: stopReq_at_def)

lemma motors_stopped_Stop [simp]:
  "motors_stopped (Motor Stop 0 w)"
  "motors_stopped (enableMotors False (Motor Stop 0 w))"
  by (simp_all add: motors_stopped_def Motor_def enableMotors_def EN_ACTIVE_LOW_def Let_def
      Stop_def)

definition effect :: "int set \<Rightarrow> world \<Rightarrow> world \<Rightarrow> bool" where
  "effect D w w' \<longleftrightarrow>
     gyro w' = gyro w \<and> stop_at w' = stop_at w \<and> clock w \<le> clock w' \<and>
     (\<exists>new. motor_log w' = new @ motor_log w \<and> (\<forall>(d, s)\<in>set new. d \<in> D))"

lemma effect_refl: "effect D w w"
  by (simp add: effect_def)

lemma effect_trans: "effect D w w1 \<Longrightarrow> effect D w1 w2 \<Longrightarrow> effect D w w2"
  by (fastforce simp: effect_def)

lemma effect_Motor: "d \<in> D \<Longrightarrow> effect D w x \<Longrightarrow> effect D w (Motor d s x)"
  by (fastforce simp: effect_def)

lemma effect_enable: "effect D w x \<Longrightarrow> effect D w (enableMotors b x)"
  by (simp add: effect_def)

lemma effect_mpu: "effect D w x \<Longrightarrow> effect D w (mpu_update x)"
  by (simp add: effect_def)

lemma effect_clock: "effect D w x \<Longrightarrow> clock w \<le> t \<Longrightarrow> effect D w (x\<lparr>clock := t\<rparr>)"
  by (simp add: effect_def)

lemmas effect_intros = effect_Motor effect_enable effect_mpu effect_clock effect_refl

text \<open>
  \<open>begins l l' x\<close>: the log \<open>l'\<close> extends the log \<open>l\<close> (most recent call first), and the
  first call made after \<open>l\<close> is \<open>x\<close>.
\<close>

definition begins :: "'a list \<Rightarrow> 'a list \<Rightarrow> 'a \<Rightarrow> bool" where
  "begins l l' x \<longleftrightarrow> (\<exists>new. l' = new @ x # l)"

lemma begins_self [simp]: "\<not> begins l l x"
proof
  assume "begins l l x"
  then obtain new where "l = new @ x # l"
    by (auto simp: begins_def)
  then have "length l = length (new @ x # l)" by simp
  then show False by simp
qed

lemma begins_Cons [simp]: "begins l (y # l') x \<longleftrightarrow> y = x \<and> l' = l \<or> begins l l' x"
  unfolding begins_def by (auto simp: Cons_eq_append_conv)


definition allowed :: "rot_ctx \<Rightarrow> bool \<Rightarrow> int set" where
  "allowed c ov = (if ov then {Stop, cmdOpp c} else {Stop, cmdOpp c, cmdMain c})"

text \<open>
  The wrapped error a pass of the loop computes from the sample it takes at time \<open>clock w\<close>,
  the tolerance test \<^verbatim>\<open>ae <= TOL\<close> and the overshoot test
  \<^verbatim>\<open>(sign != sign0) && (ae > OVERSHOOT_DEG)\<close> on it.
\<close>

definition sample_err :: "rot_ctx \<Rightarrow> world \<Rightarrow> float option" where
  "sample_err c w = norm180 (f_sub (targetAngle c) (gyro w (clock w)))"

definition within_tol :: "float option \<Rightarrow> bool" where
  "within_tol e = (case e of None \<Rightarrow> False | Some err \<Rightarrow> f_le (f_abs err) TOL)"

definition flipped :: "rot_ctx \<Rightarrow> float option \<Rightarrow> bool" where
  "flipped c e =
     (case e of
        None \<Rightarrow> False
      | Some err \<Rightarrow>
          (if f_ge err (Fin 0) then 1 else - 1) \<noteq> sign0 c \<and> f_gt (f_abs err) OVERSHOOT_DEG)"

definition latch :: "rot_ctx \<Rightarrow> rot_state \<Rightarrow> world \<Rightarrow> bool" where
  "latch c st w \<longleftrightarrow> overshot st \<or> flipped c (sample_err c w)"

lemma f_le_not_gt: "f_le x (Fin a) \<Longrightarrow> a \<le> b \<Longrightarrow> \<not> f_gt x (Fin b)"
  by (cases x) (simp_all add: f_gt_def)

lemma within_tol_not_flipped: "within_tol e \<Longrightarrow> \<not> flipped c e"
  by (cases e) (auto simp: within_tol_def flipped_def TOL_def ANGLE_TOL_def OVERSHOOT_DEG_def
      dest: f_le_not_gt [where b = 6])

lemma micro_step_sum:
  assumes "micro_step c ov w = Some (e, w')"
    and "Stop \<in> D" "cmdOpp c \<in> D" "\<not> ov \<Longrightarrow> cmdMain c \<in> D"
  shows "effect D w w' \<and> (e = MReturn \<longrightarrow> motors_stopped w' \<and> stopReq w') \<and>
         (e = MNext \<longrightarrow> clock w < clock w') \<and>
         (e = MBreak \<longrightarrow> \<not> within_tol (sample_err c w) \<longrightarrow> clock w < clock w') \<and>
         (e \<noteq> MReturn \<longrightarrow> angleZ w' = gyro w (clock w'))"
  using assms unfolding micro_step_def
  by (auto simp: Let_def getAngleZ_def MICRO_KICK_MS_def sample_err_def within_tol_def
      split: prod.splits if_splits option.splits
      dest!: smartDelay_True_exact smartDelay_False_exact shouldStopNow_False shouldStopNow_True
      intro!: effect_intros)


lemma micro_loop_sum:
  assumes "micro_loop c ov n w = Some (ok, w')"
    and "Stop \<in> D" "cmdOpp c \<in> D" "\<not> ov \<Longrightarrow> cmdMain c \<in> D"
  shows "effect D w w' \<and> (\<not> ok \<longrightarrow> motors_stopped w' \<and> stopReq w') \<and>
         (ok \<longrightarrow> 0 < n \<longrightarrow> \<not> within_tol (sample_err c w) \<longrightarrow> clock w < clock w') \<and>
         (ok \<longrightarrow> 0 < n \<longrightarrow> angleZ w' = gyro w (clock w'))"
  using assms(1)
proof (induction n arbitrary: w)
  case 0
  then show ?case by (simp add: effect_refl)
next
  case (Suc n)
  from Suc.prems obtain e w1 where step: "micro_step c ov w = Some (e, w1)"
    by (cases "micro_step c ov w") auto
  note s = micro_step_sum [OF step assms(2-4)]
  show ?case
  proof (cases e)
    case MReturn
    with step Suc.prems s show ?thesis by simp
  next
    case MBreak
    with step Suc.prems s show ?thesis by simp
  next
    case MNext
    with step Suc.prems have rest: "micro_loop c ov n w1 = Some (ok, w')" by simp
    show ?thesis
    proof (cases n)
      case 0
      with rest have "w' = w1" "ok" by simp_all
      with s MNext show ?thesis by simp
    next
      case (Suc m)
      with Suc.IH [OF rest] s MNext show ?thesis
        by (auto intro: effect_trans simp: effect_def)
    qed
  qed
qed


lemma near_zone_sum:
  assumes "near_zone c st w = (f, w')" and "Stop \<in> D" "cmd st \<in> D"
  shows "effect D w w' \<and> begins (motor_log w) (motor_log w') (cmd st, FINE_PWM) \<and>
         (f = Return False \<and> motors_stopped w' \<and> stopReq w' \<or> f = Continue st \<and> clock w < clock w')"
  using assms unfolding near_zone_def
  by (auto simp: Let_def NEAR_KICK_MS_def split: prod.splits if_splits
      dest!: smartDelay_True_exact smartDelay_False_exact
      intro!: effect_intros)

lemma mid_zone_sum:
  assumes "mid_zone c st w = (f, w')" and "Stop \<in> D" "cmd st \<in> D"
  shows "effect D w w' \<and> begins (motor_log w) (motor_log w') (cmd st, MID_PWM) \<and>
         (f = Return False \<and> motors_stopped w' \<and> stopReq w' \<or> f = Continue st \<and> clock w < clock w')"
  using assms unfolding mid_zone_def
  by (auto simp: Let_def split: prod.splits if_splits
      dest!: smartDelay_True_exact smartDelay_False_exact
      intro!: effect_intros)

lemma far_zone_sum:
  assumes "far_zone c st w = (f, w')" and "Stop \<in> D" "cmd st \<in> D"
  shows "effect D w w' \<and> begins (motor_log w) (motor_log w') (cmd st, FAST_PWM) \<and>
         (f = Return False \<and> motors_stopped w' \<and> stopReq w' \<or> f = Continue st \<and> clock w < clock w')"
  using assms unfolding far_zone_def
  by (auto simp: Let_def split: prod.splits if_splits
      dest!: smartDelay_True_exact smartDelay_False_exact
      intro!: effect_intros)

lemma micro_zone_sum:
  assumes "micro_zone c st w = Some (f, w')"
    and "Stop \<in> D" "cmdOpp c \<in> D" "\<not> overshot st \<Longrightarrow> cmdMain c \<in> D"
  shows "effect D w w' \<and>
         (f = Return False \<and> motors_stopped w' \<and> stopReq w' \<or>
          f = Continue st \<and> (\<not> within_tol (sample_err c w) \<longrightarrow> clock w < clock w'))"
proof -
  from assms(1) obtain ok w1 where m: "micro_loop c (overshot st) MICRO_STEPS w = Some (ok, w1)"
    by (cases "micro_loop c (overshot st) MICRO_STEPS w") (auto simp: micro_zone_def)
  from micro_loop_sum [OF m assms(2-4)] m assms(1) show ?thesis
    by (auto simp: micro_zone_def MICRO_STEPS_def split: if_splits option.splits)
qed


lemma rotate_iter_stop:
  assumes "stopReq w"
  shows "rotate_iter c st w = Some (Return False, enableMotors False (Motor Stop 0 w))"
  using assms by (simp add: rotate_iter_def shouldStopNow_def)

lemma rotate_iter_hang:
  assumes "\<not> stopReq w" "sample_err c w = None"
  shows "rotate_iter c st w = None"
  using assms by (simp add: rotate_iter_def shouldStopNow_def Let_def sample_err_def getAngleZ_def)

lemma rotate_iter_timeout:
  assumes "\<not> stopReq w" "sample_err c w = Some err" "TIMEOUT_MS < clock w - t0 c"
  shows "rotate_iter c st w = Some (Return False, Motor Stop 0 (mpu_update w))"
  using assms
  by (simp add: rotate_iter_def shouldStopNow_def Let_def millis_def sample_err_def getAngleZ_def)

lemma rotate_iter_in_tol:
  assumes "\<not> stopReq w" "\<not> TIMEOUT_MS < clock w - t0 c" "within_tol (sample_err c w)"
  shows "rotate_iter c st w =
    (if STABLE \<le> stableCnt st + 1 then Some (Return True, Motor Stop 0 (mpu_update w))
     else let (ok, w4) = smartDelay 25 (Motor Stop 0 (mpu_update w)) in
       if \<not> ok then Some (Return False, w4)
       else Some (Continue (st\<lparr>stableCnt := stableCnt st + 1\<rparr>), w4))"
  using assms
  by (cases "sample_err c w")
    (simp_all add: rotate_iter_def shouldStopNow_def Let_def millis_def sample_err_def
      getAngleZ_def within_tol_def split: prod.splits)

lemma rotate_iter_zone:
  assumes "\<not> stopReq w" "\<not> TIMEOUT_MS < clock w - t0 c" "sample_err c w = Some err"
    and "\<not> f_le (f_abs err) TOL"
  shows "rotate_iter c st w =
    (let ae = f_abs err;
         st3 = st\<lparr>stableCnt := 0, overshot := latch c st w,
                  cmd := (if latch c st w then cmdOpp c else cmdMain c)\<rparr>;
         w2 = mpu_update w in
     if f_lt ae (Fin 10)
     then (if f_lt ae (Fin 6) then micro_zone c st3 w2 else Some (near_zone c st3 w2))
     else if f_lt ae (Fin 25) then Some (mid_zone c st3 w2) else Some (far_zone c st3 w2))"
  using assms
  by (cases st)
    (auto simp add: rotate_iter_def shouldStopNow_def Let_def millis_def sample_err_def
      getAngleZ_def latch_def flipped_def)

lemma allowed_Stop [simp]: "Stop \<in> allowed c ov" "cmdOpp c \<in> allowed c ov"
  "\<not> ov \<Longrightarrow> cmdMain c \<in> allowed c ov"
  by (simp_all add: allowed_def)

lemma sample_err_mpu [simp]: "sample_err c (mpu_update w) = sample_err c w"
  by (simp add: sample_err_def)

lemma rotate_iter_sum:
  assumes it: "rotate_iter c st w = Some (f, w')"
  shows "effect (allowed c (latch c st w)) w w' \<and>
    (case f of
       Return r \<Rightarrow>
         motors_stopped w' \<and>
         (if r then clock w' = clock w \<and> \<not> stopReq w \<and> \<not> TIMEOUT_MS < clock w - t0 c \<and>
                    within_tol (sample_err c w) \<and> STABLE \<le> stableCnt st + 1 \<and>
                    motor_log w' = (Stop, 0) # motor_log w
          else stopReq w' \<or> TIMEOUT_MS < clock w' - t0 c)
     | Continue st' \<Rightarrow>
         clock w < clock w' \<and> \<not> stopReq w \<and> \<not> TIMEOUT_MS < clock w - t0 c \<and>
         overshot st' = latch c st w \<and>
         (if within_tol (sample_err c w)
          then stableCnt st' = stableCnt st + 1 \<and> stableCnt st' < STABLE \<and>
               clock w' = clock w + 26 \<and> motor_log w' = (Stop, 0) # motor_log w
          else stableCnt st' = 0))"
proof (cases "stopReq w")
  case True
  with it rotate_iter_stop [OF True, of c st] show ?thesis
    by (auto intro!: effect_intros)
next
  case run: False
  from it rotate_iter_hang [OF run, of c st] obtain err where err: "sample_err c w = Some err"
    by (cases "sample_err c w") auto
  show ?thesis
  proof (cases "TIMEOUT_MS < clock w - t0 c")
    case True
    with it rotate_iter_timeout [OF run err True, of st] show ?thesis
      by (auto intro!: effect_intros)
  next
    case time: False
    show ?thesis
    proof (cases "within_tol (sample_err c w)")
      case True
      then have nolatch: "latch c st w = overshot st"
        by (auto simp: latch_def dest: within_tol_not_flipped)
      from it rotate_iter_in_tol [OF run time True, of st] run time True show ?thesis
        by (auto simp: Let_def nolatch split: prod.splits if_splits
            dest!: smartDelay_True_exact smartDelay_False_exact intro!: effect_intros)
    next
      case False
      with err have out: "\<not> f_le (f_abs err) TOL"
        by (simp add: within_tol_def)
      define st3 where "st3 = st\<lparr>stableCnt := 0, overshot := latch c st w,
                  cmd := (if latch c st w then cmdOpp c else cmdMain c)\<rparr>"
      have st3: "overshot st3 = latch c st w" "stableCnt st3 = 0"
        "cmd st3 \<in> allowed c (latch c st w)"
        by (simp_all add: st3_def allowed_def)
      have out': "\<not> within_tol (sample_err c (mpu_update w))"
        using False by simp
      have pre: "effect (allowed c (latch c st w)) w (mpu_update w)"
        by (intro effect_intros)
      from it rotate_iter_zone [OF run time err out, of st]
      consider "micro_zone c st3 (mpu_update w) = Some (f, w')"
        | "near_zone c st3 (mpu_update w) = (f, w')"
        | "mid_zone c st3 (mpu_update w) = (f, w')"
        | "far_zone c st3 (mpu_update w) = (f, w')"
        by (auto simp: Let_def st3_def split: if_splits)
      then have "effect (allowed c (latch c st w)) (mpu_update w) w' \<and>
         (f = Return False \<and> motors_stopped w' \<and> stopReq w' \<or>
          f = Continue st3 \<and> clock w < clock w')"
      proof cases
        case 1
        from micro_zone_sum [OF 1, of "allowed c (latch c st w)"] out' st3 show ?thesis
          by simp
      next
        case 2
        from near_zone_sum [OF 2, of "allowed c (latch c st w)"] st3 show ?thesis
          by simp
      next
        case 3
        from mid_zone_sum [OF 3, of "allowed c (latch c st w)"] st3 show ?thesis
          by simp
      next
        case 4
        from far_zone_sum [OF 4, of "allowed c (latch c st w)"] st3 show ?thesis
          by simp
      qed
      with pre run time False st3 show ?thesis
        by (auto intro: effect_trans)
    qed
  qed
qed

text \<open>
  \<^verbatim>\<open>while (true)\<close>: the loop ends when a pass returns. Every pass that continues lets the
  clock advance and has passed the timeout check, which bounds the number of passes; the loop
  does not return only when a call of \<open>norm180\<close> does not.
\<close>

function rotate_loop :: "rot_ctx \<Rightarrow> rot_state \<Rightarrow> world \<Rightarrow> (bool \<times> world) option" where
  "rotate_loop c st w =
     (case rotate_iter c st w of
        None \<Rightarrow> None
      | Some (Return r, w1) \<Rightarrow> Some (r, w1)
      | Some (Continue st1, w1) \<Rightarrow> rotate_loop c st1 w1)"
  by pat_completeness auto
termination
proof (relation "measure (\<lambda>(c, st, w). t0 c + TIMEOUT_MS + 1 - clock w)")
  show "wf (measure (\<lambda>(c, st, w). t0 c + TIMEOUT_MS + 1 - clock w))"
    by (rule wf_measure)
next
  fix c st w p x w1 st1
  assume "rotate_iter c st w = Some p" and "(x, w1) = p" and "x = Continue st1"
  then have "rotate_iter c st w = Some (Continue st1, w1)"
    by simp
  from rotate_iter_sum [OF this]
  have "clock w < clock w1" and "\<not> TIMEOUT_MS < clock w - t0 c"
    by simp_all
  then show "((c, st1, w1), (c, st, w)) \<in> measure (\<lambda>(c, st, w). t0 c + TIMEOUT_MS + 1 - clock w)"
    by simp
qed

text \<open>
  \<^verbatim>\<open>bool Rotate(float phi)\<close>: the stop check, the target, the start-up kick of 60 ms and the
  pause of 50 ms, the sign of the first error, then the loop.
\<close>

definition Rotate :: "float \<Rightarrow> world \<Rightarrow> (bool \<times> world) option" where
  "Rotate phi w =
     (let (stop, w1) = shouldStopNow w in
      if stop then Some (False, w1) else
      let w2 = mpu_update w1;
          startAngle = getAngleZ w2;
          k = (if f_gt phi (Fin 0) then K_TURN_R else K_TURN_L);
          targetAngle = f_sub startAngle (f_mul phi k);
          t0 = millis w2;
          cmdMain = (if f_gt phi (Fin 0) then RotateRight else RotateLeft);
          cmdOpp = (if f_gt phi (Fin 0) then RotateLeft else RotateRight);
          w3 = Motor cmdMain FAST_PWM w2;
          (ok, w4) = smartDelay 60 w3 in
      if \<not> ok then Some (False, Motor Stop 0 w4) else
      let w5 = Motor Stop 0 w4;
          (ok, w6) = smartDelay 50 w5 in
      if \<not> ok then Some (False, w6) else
      let cmd = cmdMain;
          w7 = mpu_update w6 in
      (case norm180 (f_sub targetAngle (getAngleZ w7)) of
         None \<Rightarrow> None
       | Some err0 \<Rightarrow>
          (let sign0 = (if f_ge err0 (Fin 0) then 1 else - 1) in
           rotate_loop
             \<lparr>targetAngle = targetAngle, t0 = t0, cmdMain = cmdMain, cmdOpp = cmdOpp,
              sign0 = sign0\<rparr>
             \<lparr>overshot = False, stableCnt = 0, cmd = cmd\<rparr> w7)))"

subsection \<open>Invariants of the rotation loop\<close>

declare rotate_loop.simps [simp del]

text \<open>
  The yaw the gyro reports at time \<open>t\<close> is within tolerance of the target \<open>tg\<close>, by the
  test of the code: the wrapped error is computed and its magnitude is at most \<open>TOL\<close>.
\<close>

definition in_tol :: "float \<Rightarrow> world \<Rightarrow> nat \<Rightarrow> bool" where
  "in_tol tg w t \<longleftrightarrow> within_tol (norm180 (f_sub tg (gyro w t)))"

lemma effect_env: "effect D w w' \<Longrightarrow> gyro w' = gyro w \<and> stop_at w' = stop_at w \<and> clock w \<le> clock w'"
  by (simp add: effect_def)

lemma stopReq_env: "gyro w' = gyro w \<Longrightarrow> stop_at w' = stop_at w \<Longrightarrow> clock w' = clock w \<Longrightarrow> stopReq w' = stopReq w"
  by (simp add: stopReq_def split: option.splits)

lemma sample_err_env: "gyro w' = gyro w \<Longrightarrow> clock w' = clock w \<Longrightarrow> sample_err c w' = sample_err c w"
  by (simp add: sample_err_def)

lemma rotate_loop_sum:
  assumes "rotate_loop c st w = Some (r, w')"
  shows "motors_stopped w' \<and> gyro w' = gyro w \<and> stop_at w' = stop_at w \<and> clock w \<le> clock w' \<and>
    (if r then \<not> stopReq w' \<and> \<not> TIMEOUT_MS < clock w' - t0 c \<and> within_tol (sample_err c w')
     else stopReq w' \<or> TIMEOUT_MS < clock w' - t0 c)"
  using assms
proof (induction c st w rule: rotate_loop.induct)
  case (1 c st w)
  from "1.prems"(1) obtain f w1 where it: "rotate_iter c st w = Some (f, w1)"
    by (cases "rotate_iter c st w") (auto simp: rotate_loop.simps [of c st w])
  note s = rotate_iter_sum [OF it]
  then have env: "gyro w1 = gyro w" "stop_at w1 = stop_at w" "clock w \<le> clock w1"
    by (simp_all add: effect_def)
  show ?case
  proof (cases f)
    case (Return b)
    with it "1.prems" have eq: "r = b" "w' = w1"
      by (simp_all add: rotate_loop.simps [of c st w])
    show ?thesis
    proof (cases b)
      case True
      with s Return env have "clock w1 = clock w" "\<not> stopReq w" "\<not> TIMEOUT_MS < clock w - t0 c"
        "within_tol (sample_err c w)" "motors_stopped w1"
        by simp_all
      with env eq True show ?thesis
        by (simp add: stopReq_env [of w1 w] sample_err_env [of w1 w])
    next
      case False
      with s Return env eq show ?thesis by simp
    qed
  next
    case (Continue st1)
    with it "1.prems" have "rotate_loop c st1 w1 = Some (r, w')"
      by (simp add: rotate_loop.simps [of c st w])
    from "1.IH" [OF it refl Continue this] env show ?thesis
      by simp
  qed
qed


lemma rotate_loop_history:
  assumes "rotate_loop c st w = Some (True, w')"
    and "stableCnt st < STABLE"
    and "tb \<le> clock w"
    and "\<forall>i. i < stableCnt st \<longrightarrow> tb + 26 * (i + 1) \<le> clock w \<and> in_tol (targetAngle c) w (clock w - 26 * (i + 1))"
  shows "\<forall>i<STABLE. tb + 26 * i \<le> clock w' \<and> in_tol (targetAngle c) w (clock w' - 26 * i)"
  using assms
proof (induction c st w rule: rotate_loop.induct)
  case (1 c st w)
  from "1.prems"(1) obtain f w1 where it: "rotate_iter c st w = Some (f, w1)"
    by (cases "rotate_iter c st w") (auto simp: rotate_loop.simps [of c st w])
  note s = rotate_iter_sum [OF it]
  then have env: "gyro w1 = gyro w" "stop_at w1 = stop_at w" "clock w \<le> clock w1"
    by (simp_all add: effect_def)
  have now: "within_tol (sample_err c w) \<longleftrightarrow> in_tol (targetAngle c) w (clock w)"
    by (simp add: sample_err_def in_tol_def)
  show ?case
  proof (cases f)
    case (Return b)
    with it "1.prems"(1) have eq: "b" "w' = w1"
      by (simp_all add: rotate_loop.simps [of c st w])
    with s Return have fin: "clock w1 = clock w" "in_tol (targetAngle c) w (clock w)" "STABLE \<le> stableCnt st + 1"
      by (simp_all add: now)
    show ?thesis
    proof (intro allI impI)
      fix i assume "i < STABLE"
      show "tb + 26 * i \<le> clock w' \<and> in_tol (targetAngle c) w (clock w' - 26 * i)"
      proof (cases i)
        case 0
        with fin eq "1.prems"(3) show ?thesis by simp
      next
        case (Suc j)
        with \<open>i < STABLE\<close> fin have "j < stableCnt st" by simp
        with "1.prems"(4) Suc fin eq show ?thesis by simp
      qed
    qed
  next
    case (Continue st1)
    with it "1.prems"(1) have rest: "rotate_loop c st1 w1 = Some (True, w')"
      by (simp add: rotate_loop.simps [of c st w])
    have tol_eq: "\<And>t. in_tol (targetAngle c) w1 t = in_tol (targetAngle c) w t"
      by (simp add: in_tol_def env)
    have cnt: "stableCnt st1 < STABLE"
      using s Continue by (simp add: STABLE_def STABLE_CNT_def split: if_splits)
    have base: "tb \<le> clock w1"
      using "1.prems"(3) env by simp
    have hist: "\<forall>i. i < stableCnt st1 \<longrightarrow> tb + 26 * (i + 1) \<le> clock w1 \<and> in_tol (targetAngle c) w1 (clock w1 - 26 * (i + 1))"
    proof (cases "within_tol (sample_err c w)")
      case False
      with s Continue show ?thesis by simp
    next
      case True
      with s Continue have st1: "stableCnt st1 = stableCnt st + 1" "clock w1 = clock w + 26"
        by simp_all
      show ?thesis
      proof (intro allI impI)
        fix i assume "i < stableCnt st1"
        show "tb + 26 * (i + 1) \<le> clock w1 \<and> in_tol (targetAngle c) w1 (clock w1 - 26 * (i + 1))"
        proof (cases i)
          case 0
          with st1 True "1.prems"(3) show ?thesis by (simp add: tol_eq now)
        next
          case (Suc j)
          with \<open>i < stableCnt st1\<close> st1 have "j < stableCnt st" by simp
          with "1.prems"(4) have "tb + 26 * (j + 1) \<le> clock w \<and> in_tol (targetAngle c) w (clock w - 26 * (j + 1))"
            by blast
          with Suc st1 show ?thesis by (simp add: tol_eq)
        qed
      qed
    qed
    from "1.IH" [OF it refl Continue rest cnt base hist] show ?thesis
      by (simp add: tol_eq)
  qed
qed

lemma stopReq_at_mono: "stopReq_at w t \<Longrightarrow> t \<le> u \<Longrightarrow> stopReq_at w u"
  by (auto simp: stopReq_at_def stopReq_def split: option.splits)

lemma stopReq_at_now: "stopReq_at w (clock w) = stopReq w"
  by (simp add: stopReq_at_def stopReq_def)

lemma smartDelay_no_stop:
  assumes "\<not> stopReq_at w (clock w + ms)"
  shows "smartDelay ms w = (True, w\<lparr>clock := clock w + 2 * ((ms + 1) div 2)\<rparr>)"
proof -
  obtain r w' where res: "smartDelay ms w = (r, w')"
    by force
  have r
  proof (rule ccontr)
    assume "\<not> r"
    with res smartDelay_False_exact [of ms w w'] obtain k
      where "2 * k < ms" "stopReq_at w (clock w + 2 * k)"
      by auto
    with assms stopReq_at_mono [of w "clock w + 2 * k" "clock w + ms"] show False
      by simp
  qed
  with res smartDelay_True_exact [of ms w w'] show ?thesis
    by simp
qed

lemma rotate_loop_stable:
  assumes "stableCnt st + n + 1 = STABLE"
    and "\<forall>i\<le>n. in_tol (targetAngle c) w (clock w + 26 * i)"
    and "\<not> stopReq_at w (clock w + 26 * n)"
    and "clock w + 26 * n \<le> t0 c + TIMEOUT_MS"
  shows "\<exists>w'. rotate_loop c st w = Some (True, w') \<and> clock w' = clock w + 26 * n \<and>
           motor_log w' = replicate (n + 1) (Stop, 0) @ motor_log w \<and>
           gyro w' = gyro w \<and> stop_at w' = stop_at w"
  using assms
proof (induction n arbitrary: st w)
  case 0
  then have "rotate_iter c st w = Some (Return True, Motor Stop 0 (mpu_update w))"
    using rotate_iter_in_tol [of w c st]
    by (simp add: stopReq_at_now sample_err_def in_tol_def)
  then show ?case
    by (simp add: rotate_loop.simps [of c st w])
next
  case (Suc n)
  let ?w3 = "Motor Stop 0 (mpu_update w)"
  let ?st1 = "st\<lparr>stableCnt := stableCnt st + 1\<rparr>"
  let ?w4 = "?w3\<lparr>clock := clock w + 26\<rparr>"
  from Suc.prems(3) have nostop: "\<not> stopReq_at w (clock w)" "\<not> stopReq_at w (clock w + 25)"
    using stopReq_at_mono [of w "clock w" "clock w + 26 * Suc n"]
      stopReq_at_mono [of w "clock w + 25" "clock w + 26 * Suc n"] by auto
  then have "smartDelay 25 ?w3 = (True, ?w4)"
    using smartDelay_no_stop [of ?w3 25] by simp
  moreover from Suc.prems have "in_tol (targetAngle c) w (clock w)"
    by (metis add.right_neutral le0 mult_0_right)
  ultimately have "rotate_iter c st w = Some (Continue ?st1, ?w4)"
    using rotate_iter_in_tol [of w c st] Suc.prems(1,4) nostop
    by (simp add: stopReq_at_now sample_err_def in_tol_def)
  then have unfold: "rotate_loop c st w = rotate_loop c ?st1 ?w4"
    by (simp add: rotate_loop.simps [of c st w])
  have tol: "\<forall>i\<le>n. in_tol (targetAngle c) ?w4 (clock ?w4 + 26 * i)"
  proof (intro allI impI)
    fix i assume "i \<le> n"
    then have "Suc i \<le> Suc n" by simp
    with Suc.prems(2) have "in_tol (targetAngle c) w (clock w + 26 * Suc i)" by blast
    then show "in_tol (targetAngle c) ?w4 (clock ?w4 + 26 * i)"
      by (simp add: in_tol_def add.assoc)
  qed
  from Suc.IH [of ?st1 ?w4, OF _ tol] Suc.prems show ?case
    by (simp add: unfold add.assoc replicate_app_Cons_same)
qed

subsection \<open>The call as a whole\<close>

text \<open>
  What \<^verbatim>\<open>Rotate(phi)\<close> fixes at its entry, as functions of the argument and of the board at
  the time of the call: the target angle, the two direction bytes, the first wrapped error
  (sampled after the 60 ms kick and the 50 ms settle pause, which take 110 ms as 30 and 25
  slices of 2 ms), the loop context, and the board as it is when the loop is entered.
\<close>

definition rot_target :: "float \<Rightarrow> world \<Rightarrow> float" where
  "rot_target phi w =
     f_sub (gyro w (clock w)) (f_mul phi (if f_gt phi (Fin 0) then K_TURN_R else K_TURN_L))"

definition rot_cmdMain :: "float \<Rightarrow> int" where
  "rot_cmdMain phi = (if f_gt phi (Fin 0) then RotateRight else RotateLeft)"

definition rot_cmdOpp :: "float \<Rightarrow> int" where
  "rot_cmdOpp phi = (if f_gt phi (Fin 0) then RotateLeft else RotateRight)"

definition rot_err0 :: "float \<Rightarrow> world \<Rightarrow> float option" where
  "rot_err0 phi w = norm180 (f_sub (rot_target phi w) (gyro w (clock w + 110)))"

definition rot_ctx_of :: "float \<Rightarrow> world \<Rightarrow> float \<Rightarrow> rot_ctx" where
  "rot_ctx_of phi w err0 =
     \<lparr>targetAngle = rot_target phi w, t0 = clock w, cmdMain = rot_cmdMain phi,
      cmdOpp = rot_cmdOpp phi, sign0 = (if f_ge err0 (Fin 0) then 1 else - 1)\<rparr>"

definition rot_state0 :: "float \<Rightarrow> rot_state" where
  "rot_state0 phi = \<lparr>overshot = False, stableCnt = 0, cmd = rot_cmdMain phi\<rparr>"

definition rot_loop_entry :: "float \<Rightarrow> world \<Rightarrow> world" where
  "rot_loop_entry phi w =
     mpu_update ((Motor Stop 0 ((Motor (rot_cmdMain phi) FAST_PWM (mpu_update w))
        \<lparr>clock := clock w + 60\<rparr>))\<lparr>clock := clock w + 110\<rparr>)"

lemma Rotate_cases:
  assumes "Rotate phi w = Some (r, w')"
  shows "(\<not> r \<and> motors_stopped w' \<and> stopReq w' \<and> gyro w' = gyro w \<and> stop_at w' = stop_at w \<and>
            clock w \<le> clock w') \<or>
         (\<exists>err0. rot_err0 phi w = Some err0 \<and>
            rotate_loop (rot_ctx_of phi w err0) (rot_state0 phi) (rot_loop_entry phi w) =
              Some (r, w'))"
proof (cases "stopReq w")
  case True
  with assms show ?thesis
    by (auto simp: Rotate_def shouldStopNow_def)
next
  case False
  let ?w3 = "Motor (rot_cmdMain phi) FAST_PWM (mpu_update w)"
  obtain ok1 w4 where d1: "smartDelay 60 ?w3 = (ok1, w4)"
    by force
  show ?thesis
  proof (cases ok1)
    case False
    with d1 smartDelay_False_exact [of 60 ?w3 w4] \<open>\<not> stopReq w\<close> assms show ?thesis
      by (auto simp: Rotate_def shouldStopNow_def Let_def rot_cmdMain_def)
  next
    case ok1: True
    with d1 smartDelay_True_exact [of 60 ?w3 w4] have w4: "w4 = ?w3\<lparr>clock := clock w + 60\<rparr>"
      by simp
    obtain ok2 w6 where d2: "smartDelay 50 (Motor Stop 0 w4) = (ok2, w6)"
      by force
    show ?thesis
    proof (cases ok2)
      case False
      with d2 smartDelay_False_exact [of 50 "Motor Stop 0 w4" w6] d1 ok1 w4 \<open>\<not> stopReq w\<close> assms
      show ?thesis
        by (auto simp: Rotate_def shouldStopNow_def Let_def rot_cmdMain_def)
    next
      case True
      with d2 smartDelay_True_exact [of 50 "Motor Stop 0 w4" w6]
      have w6: "w6 = (Motor Stop 0 w4)\<lparr>clock := clock w + 110\<rparr>"
        by (simp add: w4)
      from d1 ok1 d2 True \<open>\<not> stopReq w\<close>
      have "Rotate phi w =
        (case rot_err0 phi w of
           None \<Rightarrow> None
         | Some err0 \<Rightarrow>
             rotate_loop (rot_ctx_of phi w err0) (rot_state0 phi) (rot_loop_entry phi w))"
        by (simp add: Rotate_def shouldStopNow_def Let_def rot_cmdMain_def rot_cmdOpp_def
            rot_ctx_of_def rot_target_def rot_loop_entry_def getAngleZ_def millis_def w4 w6
            rot_err0_def rot_state0_def split: option.splits)
      with assms show ?thesis
        by (cases "rot_err0 phi w") auto
    qed
  qed
qed

lemma rot_loop_entry_sel [simp]:
  "clock (rot_loop_entry phi w) = clock w + 110"
  "gyro (rot_loop_entry phi w) = gyro w"
  "stop_at (rot_loop_entry phi w) = stop_at w"
  "motor_log (rot_loop_entry phi w) = (Stop, 0) # (rot_cmdMain phi, FAST_PWM) # motor_log w"
  by (simp_all add: rot_loop_entry_def)

lemma stopReq_at_rot_loop_entry [simp]:
  "stopReq_at (rot_loop_entry phi w) t = stopReq_at w t"
  by (simp add: stopReq_at_def stopReq_def split: option.splits)

lemma Rotate_startup:
  assumes "\<not> stopReq_at w (clock w + 110)"
  shows "Rotate phi w =
    (case rot_err0 phi w of
       None \<Rightarrow> None
     | Some err0 \<Rightarrow>
         rotate_loop (rot_ctx_of phi w err0) (rot_state0 phi) (rot_loop_entry phi w))"
proof -
  let ?w3 = "Motor (rot_cmdMain phi) FAST_PWM (mpu_update w)"
  let ?w4 = "?w3\<lparr>clock := clock w + 60\<rparr>"
  from assms have free: "\<not> stopReq w" "\<not> stopReq_at w (clock w + 60)"
    using stopReq_at_mono [of w "clock w" "clock w + 110"]
      stopReq_at_mono [of w "clock w + 60" "clock w + 110"]
    by (auto simp: stopReq_at_now)
  then have d1: "smartDelay 60 ?w3 = (True, ?w4)"
    using smartDelay_no_stop [of ?w3 60] by simp
  have d2: "smartDelay 50 (Motor Stop 0 ?w4) = (True, (Motor Stop 0 ?w4)\<lparr>clock := clock w + 110\<rparr>)"
    using smartDelay_no_stop [of "Motor Stop 0 ?w4" 50] assms by (simp add: add.assoc)
  from free d1 d2 show ?thesis
    by (simp add: Rotate_def shouldStopNow_def Let_def rot_cmdMain_def rot_cmdOpp_def
        rot_ctx_of_def rot_target_def rot_loop_entry_def getAngleZ_def millis_def
        rot_err0_def rot_state0_def split: option.splits)
qed

lemma rot_ctx_of_sel [simp]:
  "targetAngle (rot_ctx_of phi w e) = rot_target phi w"
  "t0 (rot_ctx_of phi w e) = clock w"
  "cmdMain (rot_ctx_of phi w e) = rot_cmdMain phi"
  "cmdOpp (rot_ctx_of phi w e) = rot_cmdOpp phi"
  "sign0 (rot_ctx_of phi w e) = (if f_ge e (Fin 0) then 1 else - 1)"
  by (simp_all add: rot_ctx_of_def)

lemma rot_state0_sel [simp]:
  "overshot (rot_state0 phi) = False" "stableCnt (rot_state0 phi) = 0"
  "cmd (rot_state0 phi) = rot_cmdMain phi"
  by (simp_all add: rot_state0_def)

lemma Rotate_sum:
  assumes "Rotate phi w = Some (r, w')"
  shows "motors_stopped w' \<and> gyro w' = gyro w \<and> stop_at w' = stop_at w \<and> clock w \<le> clock w' \<and>
    (if r then \<not> stopReq w' \<and> \<not> TIMEOUT_MS < clock w' - clock w \<and>
               (\<forall>i<STABLE. clock w + 110 + 26 * i \<le> clock w' \<and>
                    in_tol (rot_target phi w) w (clock w' - 26 * i))
     else stopReq w' \<or> TIMEOUT_MS < clock w' - clock w)"
proof -
  let ?w7 = "rot_loop_entry phi w"
  from Rotate_cases [OF assms] show ?thesis
  proof
    assume "\<not> r \<and> motors_stopped w' \<and> stopReq w' \<and> gyro w' = gyro w \<and> stop_at w' = stop_at w \<and>
            clock w \<le> clock w'"
    then show ?thesis by simp
  next
    assume "\<exists>err0. rot_err0 phi w = Some err0 \<and>
            rotate_loop (rot_ctx_of phi w err0) (rot_state0 phi) (rot_loop_entry phi w) =
              Some (r, w')"
    then obtain err0 where
      loop: "rotate_loop (rot_ctx_of phi w err0) (rot_state0 phi) ?w7 = Some (r, w')"
      by blast
    note s = rotate_loop_sum [OF loop]
    show ?thesis
    proof (cases r)
      case False
      with s show ?thesis by simp
    next
      case True
      with loop have "rotate_loop (rot_ctx_of phi w err0) (rot_state0 phi) ?w7 = Some (True, w')"
        by simp
      from rotate_loop_history [OF this, of "clock w + 110"]
      have "\<forall>i<STABLE. clock w + 110 + 26 * i \<le> clock w' \<and>
              in_tol (rot_target phi w) ?w7 (clock w' - 26 * i)"
        by (simp add: STABLE_def STABLE_CNT_def)
      then have "\<forall>i<STABLE. clock w + 110 + 26 * i \<le> clock w' \<and>
              in_tol (rot_target phi w) w (clock w' - 26 * i)"
        by (simp add: in_tol_def)
      with s True show ?thesis by simp
    qed
  qed
qed

lemma Rotate_stable:
  assumes "\<not> stopReq_at w (clock w + 344)"
    and "\<forall>i<STABLE. in_tol (rot_target phi w) w (clock w + 110 + 26 * i)"
  shows "\<exists>w'. Rotate phi w = Some (True, w') \<and> clock w' = clock w + 344 \<and>
           motor_log w' = replicate 10 (Stop, 0) @ (Stop, 0) # (rot_cmdMain phi, FAST_PWM) # motor_log w"
proof -
  let ?st = "rot_state0 phi"
  let ?w7 = "rot_loop_entry phi w"
  from assms(2) have "in_tol (rot_target phi w) w (clock w + 110 + 26 * 0)"
    by (rule allE [of _ 0]) (simp add: STABLE_def STABLE_CNT_def)
  then obtain err0 where err0: "rot_err0 phi w = Some err0"
    by (cases "rot_err0 phi w") (simp_all add: in_tol_def within_tol_def rot_err0_def)
  let ?c = "rot_ctx_of phi w err0"
  have tol: "\<forall>i\<le>9. in_tol (targetAngle ?c) ?w7 (clock ?w7 + 26 * i)"
    using assms(2) by (simp add: in_tol_def STABLE_def STABLE_CNT_def add.assoc)
  have cnt: "stableCnt ?st + 9 + 1 = STABLE"
    by (simp add: STABLE_def STABLE_CNT_def)
  have ns: "\<not> stopReq_at ?w7 (clock ?w7 + 26 * 9)"
    using assms(1) by (simp add: add.assoc)
  have tm: "clock ?w7 + 26 * 9 \<le> t0 ?c + TIMEOUT_MS"
    by (simp add: TIMEOUT_MS_def)
  from rotate_loop_stable [OF cnt tol ns tm]
  obtain w' where loop: "rotate_loop ?c ?st ?w7 = Some (True, w')" "clock w' = clock w + 344"
    "motor_log w' = replicate 10 (Stop, 0) @ (Stop, 0) # (rot_cmdMain phi, FAST_PWM) # motor_log w"
    by auto
  have "\<not> stopReq_at w (clock w + 110)"
    using assms(1) stopReq_at_mono [of w "clock w + 110" "clock w + 344"] by auto
  from Rotate_startup [OF this, of phi] loop err0 show ?thesis
    by simp
qed

subsection \<open>When the call returns\<close>

text \<open>
  \<open>Rotate\<close> returns when every evaluation of \<open>norm180\<close> it makes returns. Each of them
  wraps the difference between the target and a gyro reading.
\<close>

lemma smartDelay_env:
  assumes "smartDelay ms w = (r, w')"
  shows "gyro w' = gyro w \<and> stop_at w' = stop_at w \<and> clock w \<le> clock w'"
  using smartDelay_char [OF assms] by (cases r) auto

lemma micro_step_total:
  assumes "\<forall>t. norm180 (f_sub (targetAngle c) (gyro w t)) \<noteq> None"
  shows "micro_step c ov w \<noteq> None"
proof (cases "stopReq w")
  case True
  then show ?thesis
    by (simp add: micro_step_def shouldStopNow_def)
next
  case False
  from assms obtain err2 where err2: "norm180 (f_sub (targetAngle c) (gyro w (clock w))) = Some err2"
    by auto
  define cmd2 where "cmd2 = (if ov then cmdOpp c else if f_ge err2 (Fin 0) then cmdMain c else cmdOpp c)"
  define w3 where "w3 = Motor cmd2 FINE_PWM (mpu_update w)"
  obtain ok4 w4 where d4: "smartDelay MICRO_KICK_MS w3 = (ok4, w4)" by force
  obtain ok6 w6 where d6: "smartDelay MICRO_HOLD_MS (Motor cmd2 MIN_PWM w4) = (ok6, w6)" by force
  obtain ok8 w8 where d8: "smartDelay MICRO_PAUSE_MS (Motor Stop 0 w6) = (ok8, w8)" by force
  from smartDelay_env [OF d4] smartDelay_env [OF d6] smartDelay_env [OF d8]
  have "gyro w8 = gyro w"
    by (simp add: w3_def)
  with assms obtain errAfter where
    "norm180 (f_sub (targetAngle c) (gyro w8 (clock w8))) = Some errAfter"
    by auto
  with False err2 d4 d6 d8 show ?thesis
    by (simp add: micro_step_def shouldStopNow_def Let_def getAngleZ_def w3_def cmd2_def)
qed

lemma micro_loop_total:
  assumes "\<forall>t. norm180 (f_sub (targetAngle c) (gyro w t)) \<noteq> None"
  shows "micro_loop c ov n w \<noteq> None"
  using assms
proof (induction n arbitrary: w)
  case 0
  then show ?case by simp
next
  case (Suc n)
  from micro_step_total [OF Suc.prems, of ov] obtain e w1 where
    step: "micro_step c ov w = Some (e, w1)"
    by auto
  from micro_step_sum [OF step, of UNIV] have "gyro w1 = gyro w"
    by (simp add: effect_def)
  with Suc.prems have "\<forall>t. norm180 (f_sub (targetAngle c) (gyro w1 t)) \<noteq> None"
    by simp
  from Suc.IH [OF this] step show ?case
    by (cases e) simp_all
qed

lemma micro_zone_total:
  assumes "\<forall>t. norm180 (f_sub (targetAngle c) (gyro w t)) \<noteq> None"
  shows "micro_zone c st w \<noteq> None"
proof -
  from micro_loop_total [OF assms, of "overshot st" MICRO_STEPS] obtain ok w1 where
    m: "micro_loop c (overshot st) MICRO_STEPS w = Some (ok, w1)"
    by auto
  show ?thesis
  proof (cases ok)
    case False
    with m show ?thesis by (simp add: micro_zone_def)
  next
    case True
    with micro_loop_sum [OF m, of UNIV] have "angleZ w1 = gyro w (clock w1)"
      by (simp add: MICRO_STEPS_def)
    with assms obtain e where "norm180 (f_sub (targetAngle c) (angleZ w1)) = Some e"
      by auto
    with m True show ?thesis
      by (simp add: micro_zone_def getAngleZ_def)
  qed
qed

lemma rotate_iter_total:
  assumes "\<forall>t. norm180 (f_sub (targetAngle c) (gyro w t)) \<noteq> None"
  shows "rotate_iter c st w \<noteq> None"
proof (cases "stopReq w")
  case True
  then show ?thesis by (simp add: rotate_iter_stop)
next
  case run: False
  from assms obtain err where err: "sample_err c w = Some err"
    by (auto simp: sample_err_def)
  show ?thesis
  proof (cases "TIMEOUT_MS < clock w - t0 c")
    case True
    with run err show ?thesis by (simp add: rotate_iter_timeout)
  next
    case time: False
    show ?thesis
    proof (cases "f_le (f_abs err) TOL")
      case True
      with err have "within_tol (sample_err c w)"
        by (simp add: within_tol_def)
      from rotate_iter_in_tol [OF run time this, of st] show ?thesis
        by (simp add: Let_def split: prod.splits)
    next
      case False
      have "\<forall>t. norm180 (f_sub (targetAngle c) (gyro (mpu_update w) t)) \<noteq> None"
        using assms by simp
      from micro_zone_total [OF this] rotate_iter_zone [OF run time err False, of st]
      show ?thesis
        by (simp add: Let_def)
    qed
  qed
qed

lemma rotate_loop_total:
  assumes "\<forall>t. norm180 (f_sub (targetAngle c) (gyro w t)) \<noteq> None"
  shows "rotate_loop c st w \<noteq> None"
  using assms
proof (induction c st w rule: rotate_loop.induct)
  case (1 c st w)
  from rotate_iter_total [OF "1.prems", of st] obtain f w1 where
    it: "rotate_iter c st w = Some (f, w1)"
    by auto
  show ?case
  proof (cases f)
    case (Return r)
    with it show ?thesis
      by (simp add: rotate_loop.simps [of c st w])
  next
    case (Continue st1)
    from rotate_iter_sum [OF it] have "gyro w1 = gyro w"
      by (simp add: effect_def)
    with "1.prems" have "\<forall>t. norm180 (f_sub (targetAngle c) (gyro w1 t)) \<noteq> None"
      by simp
    from "1.IH" [OF it refl Continue this] it Continue show ?thesis
      by (simp add: rotate_loop.simps [of c st w])
  qed
qed

lemma Rotate_total:
  assumes "\<forall>t. norm180 (f_sub (rot_target phi w) (gyro w t)) \<noteq> None"
  shows "\<exists>r w'. Rotate phi w = Some (r, w')"
proof (cases "stopReq w")
  case True
  then show ?thesis
    by (auto simp: Rotate_def shouldStopNow_def)
next
  case False
  let ?w3 = "Motor (rot_cmdMain phi) FAST_PWM (mpu_update w)"
  obtain ok1 w4 where d1: "smartDelay 60 ?w3 = (ok1, w4)"
    by force
  show ?thesis
  proof (cases ok1)
    case False
    with d1 \<open>\<not> stopReq w\<close> show ?thesis
      by (auto simp: Rotate_def shouldStopNow_def Let_def rot_cmdMain_def)
  next
    case ok1: True
    obtain ok2 w6 where d2: "smartDelay 50 (Motor Stop 0 w4) = (ok2, w6)"
      by force
    show ?thesis
    proof (cases ok2)
      case False
      with d1 ok1 d2 \<open>\<not> stopReq w\<close> show ?thesis
        by (auto simp: Rotate_def shouldStopNow_def Let_def rot_cmdMain_def)
    next
      case True
      from d1 ok1 smartDelay_True_exact [of 60 ?w3 w4]
      have w4: "w4 = ?w3\<lparr>clock := clock w + 60\<rparr>"
        by simp
      from d2 True smartDelay_True_exact [of 50 "Motor Stop 0 w4" w6]
      have w6: "w6 = (Motor Stop 0 w4)\<lparr>clock := clock w + 110\<rparr>"
        by (simp add: w4)
      from d1 ok1 d2 True \<open>\<not> stopReq w\<close>
      have R: "Rotate phi w =
        (case rot_err0 phi w of
           None \<Rightarrow> None
         | Some err0 \<Rightarrow>
             rotate_loop (rot_ctx_of phi w err0) (rot_state0 phi) (rot_loop_entry phi w))"
        by (simp add: Rotate_def shouldStopNow_def Let_def rot_cmdMain_def rot_cmdOpp_def
            rot_ctx_of_def rot_target_def rot_loop_entry_def getAngleZ_def millis_def w4 w6
            rot_err0_def rot_state0_def split: option.splits)
      from assms obtain err0 where err0: "rot_err0 phi w = Some err0"
        by (auto simp: rot_err0_def)
      have "\<forall>t. norm180 (f_sub (targetAngle (rot_ctx_of phi w err0))
                (gyro (rot_loop_entry phi w) t)) \<noteq> None"
        using assms by simp
      from rotate_loop_total [OF this, of "rot_state0 phi"] R err0 show ?thesis
        by auto
    qed
  qed
qed

text \<open>
  The evaluations return when the argument and the gyro readings are finite and at most
  \<open>2^23\<close> in magnitude: then the target and every difference stay below \<open>2^27\<close>, where
  \<open>norm180\<close> is exact.
\<close>

lemma round32_cases:
  assumes "\<bar>x\<bar> \<le> 2 ^ n" "n \<le> 127"
  obtains y where "round32 x = Fin y" "\<bar>y\<bar> \<le> 2 ^ n" "float_form y"
proof -
  have "pow2 (int n) = 2 ^ n"
    by (simp add: pow2_def)
  with round32_bound [of x "int n"] assms obtain y where y: "round32 x = Fin y" "\<bar>y\<bar> \<le> 2 ^ n"
    by auto
  with round32_Fin_form [of x y] that show ?thesis
    by blast
qed

lemma rot_target_bounded:
  assumes "\<bar>p\<bar> \<le> 2 ^ 23" and "gyro w (clock w) = Fin z0" "\<bar>z0\<bar> \<le> 2 ^ 23"
  obtains tg where "rot_target (Fin p) w = Fin tg" "\<bar>tg\<bar> \<le> 2 ^ 25"
proof -
  define k :: real where "k = 2139095 / 2097152"
  have k: "(if f_gt (Fin p) (Fin 0) then K_TURN_R else K_TURN_L) = Fin k"
    by (simp add: K_TURN_val k_def)
  have "\<bar>p * k\<bar> = \<bar>p\<bar> * k"
    by (simp add: abs_mult k_def)
  also have "\<dots> \<le> 2 ^ 23 * 2"
    using assms(1) by (intro mult_mono) (simp_all add: k_def)
  finally have "\<bar>p * k\<bar> \<le> 2 ^ 24"
    by simp
  then obtain y where y: "round32 (p * k) = Fin y" "\<bar>y\<bar> \<le> 2 ^ 24"
    by (rule round32_cases) simp
  from y(2) assms(3) have "\<bar>z0 - y\<bar> \<le> 2 ^ 25"
    by simp
  then obtain tg where tg: "round32 (z0 - y) = Fin tg" "\<bar>tg\<bar> \<le> 2 ^ 25"
    by (rule round32_cases) simp
  have "rot_target (Fin p) w = Fin tg"
    unfolding rot_target_def k assms(2) by (simp add: y tg)
  with tg(2) that show ?thesis
    by blast
qed

lemma Rotate_bounded_returns:
  assumes "\<bar>p\<bar> \<le> 2 ^ 23" and "\<forall>t. \<exists>z. gyro w t = Fin z \<and> \<bar>z\<bar> \<le> 2 ^ 23"
  shows "\<forall>t. norm180 (f_sub (rot_target (Fin p) w) (gyro w t)) \<noteq> None"
proof
  fix t
  from assms(2) obtain z0 where z0: "gyro w (clock w) = Fin z0" "\<bar>z0\<bar> \<le> 2 ^ 23"
    by blast
  from assms(2) obtain z where z: "gyro w t = Fin z" "\<bar>z\<bar> \<le> 2 ^ 23"
    by blast
  from rot_target_bounded [OF assms(1) z0] obtain tg where
    tg: "rot_target (Fin p) w = Fin tg" "\<bar>tg\<bar> \<le> 2 ^ 25"
    by blast
  from tg(2) z(2) have "\<bar>tg - z\<bar> \<le> 2 ^ 26"
    by simp
  then obtain e where e: "round32 (tg - z) = Fin e" "\<bar>e\<bar> \<le> 2 ^ 26" "float_form e"
    by (rule round32_cases) simp
  from e(2) have "\<bar>e\<bar> \<le> 2 ^ 27" by simp
  from norm180_exact [OF e(3) this] obtain r where "norm180 (Fin e) = Some (Fin r)"
    by blast
  then show "norm180 (f_sub (rot_target (Fin p) w) (gyro w t)) \<noteq> None"
    by (simp add: tg z e)
qed

text \<open>Rules that run the code on a concrete board.\<close>

lemma norm180_id: "- 180 \<le> a \<Longrightarrow> a \<le> 180 \<Longrightarrow> norm180 (Fin a) = Some (Fin a)"
  by (simp add: norm180_def norm180_down.simps [of "Fin a"] norm180_up.simps [of "Fin a"])


lemma f_mul_Fin_0 [simp]: "f_mul (Fin 0) (Fin k) = Fin 0"
  by (simp add: float_eval)

lemma rot_target_0: "gyro w (clock w) = Fin z \<Longrightarrow> is_float z \<Longrightarrow> rot_target (Fin 0) w = Fin z"
  by (simp add: rot_target_def K_TURN_val float_eval)

lemma rot_target_90:
  assumes "gyro w (clock w) = Fin 0"
  shows "rot_target (Fin 90) w = Fin (- (12032409 / 131072))"
proof -
  have "round32 (90 * (2139095 / 2097152)) = Fin (of_int 12032409 * pow2 (- 17))"
    by (rule round32_eval) (simp_all add: pow2_def round_even_def)
  then have m: "f_mul (Fin 90) K_TURN_R = Fin (12032409 / 131072)"
    by (simp add: K_TURN_val pow2_def)
  have "is_float (of_int (- 12032409) * pow2 (- 17))"
    by (rule is_float_dyadic) simp_all
  then have "round32 (- (12032409 / 131072)) = Fin (- (12032409 / 131072))"
    by (simp add: pow2_def is_float_def)
  with m assms show ?thesis
    by (simp add: rot_target_def)
qed


subsection \<open>The convergence check\<close>

text \<open>
  Claim C1, as amended. In one pass of the loop that gets past the stop check and the timeout
  check, with \<open>sample_err c w\<close> the wrapped error \<^verbatim>\<open>err\<close> of that pass and \<open>within_tol\<close> the
  test \<^verbatim>\<open>ae <= TOL\<close> of the code on it:
  \<^item> if the test holds, the pass calls \<^verbatim>\<open>Motor(Stop, 0)\<close>, it returns \<open>True\<close> exactly
    when the incremented counter reaches \<open>STABLE\<close>, and a pass that continues has
    incremented \<open>stableCnt\<close> by one;
  \<^item> otherwise the pass does not return \<open>True\<close>, and if it continues \<open>stableCnt\<close> is 0.

  For the call as a whole: when \<open>Rotate\<close> returns \<open>True\<close> the actuators are stopped and the
  last \<open>STABLE_CNT\<close> samples, taken 26 ms apart (a 25 ms \<open>smartDelay\<close> lasts 13 slices)
  after the kick and the settle pause, all passed the tolerance test.

  The last sentence of the claim, amended: if the yaw passes the tolerance test at each of the
  first \<open>STABLE_CNT\<close> samples (at 110, 136, ... ms after the call, on the clock of the model,
  which only \<^verbatim>\<open>delay\<close> advances) and STOP is not pressed until then, the call returns \<open>True\<close>
  after exactly \<open>STABLE_CNT\<close> samples, having issued the kick, the stop that ends it, and
  one stop per sample.
\<close>

theorem Rotate_stability_counter:
  "(rotate_iter c st w = Some (f, w1) \<longrightarrow> \<not> stopReq w \<longrightarrow> \<not> TIMEOUT_MS < clock w - t0 c \<longrightarrow>
      (if within_tol (sample_err c w)
       then (\<exists>rest. motor_log w1 = rest @ (Stop, 0) # motor_log w) \<and>
            (f = Return True) = (STABLE \<le> stableCnt st + 1) \<and>
            (\<forall>st1. f = Continue st1 \<longrightarrow> stableCnt st1 = stableCnt st + 1)
       else f \<noteq> Return True \<and> (\<forall>st1. f = Continue st1 \<longrightarrow> stableCnt st1 = 0))) \<and>
   (Rotate phi w0 = Some (True, w') \<longrightarrow>
      motors_stopped w' \<and>
      (\<forall>i<STABLE_CNT. clock w0 + 110 + 26 * i \<le> clock w' \<and>
         in_tol (rot_target phi w0) w0 (clock w' - 26 * i))) \<and>
   (\<not> stopReq_at w0 (clock w0 + 344) \<longrightarrow>
    (\<forall>i<STABLE_CNT. in_tol (rot_target phi w0) w0 (clock w0 + 110 + 26 * i)) \<longrightarrow>
      (\<exists>w'. Rotate phi w0 = Some (True, w') \<and> clock w' = clock w0 + 344 \<and>
         motor_log w' =
           replicate STABLE_CNT (Stop, 0) @ (Stop, 0) # (rot_cmdMain phi, FAST_PWM) # motor_log w0))"
proof (intro conjI impI)
  assume it: "rotate_iter c st w = Some (f, w1)" and run: "\<not> stopReq w"
    and time: "\<not> TIMEOUT_MS < clock w - t0 c"
  show "if within_tol (sample_err c w)
       then (\<exists>rest. motor_log w1 = rest @ (Stop, 0) # motor_log w) \<and>
            (f = Return True) = (STABLE \<le> stableCnt st + 1) \<and>
            (\<forall>st1. f = Continue st1 \<longrightarrow> stableCnt st1 = stableCnt st + 1)
       else f \<noteq> Return True \<and> (\<forall>st1. f = Continue st1 \<longrightarrow> stableCnt st1 = 0)"
  proof (cases "within_tol (sample_err c w)")
    case True
    from it rotate_iter_in_tol [OF run time True, of st] show ?thesis
      by (auto simp: True Let_def split: prod.splits if_splits
          dest!: smartDelay_True_exact smartDelay_False_exact)
  next
    case False
    from rotate_iter_sum [OF it] False show ?thesis
      by (auto split: flow.splits)
  qed
next
  assume res: "Rotate phi w0 = Some (True, w')"
  from Rotate_sum [OF res] show "motors_stopped w'"
    by simp
  from Rotate_sum [OF res]
  show "\<forall>i<STABLE_CNT. clock w0 + 110 + 26 * i \<le> clock w' \<and>
         in_tol (rot_target phi w0) w0 (clock w' - 26 * i)"
    by (simp add: STABLE_def)
next
  assume "\<not> stopReq_at w0 (clock w0 + 344)"
    and "\<forall>i<STABLE_CNT. in_tol (rot_target phi w0) w0 (clock w0 + 110 + 26 * i)"
  then show "\<exists>w'. Rotate phi w0 = Some (True, w') \<and> clock w' = clock w0 + 344 \<and>
         motor_log w' =
           replicate STABLE_CNT (Stop, 0) @ (Stop, 0) # (rot_cmdMain phi, FAST_PWM) # motor_log w0"
    using Rotate_stable [of w0 phi]
    by (simp add: STABLE_def STABLE_CNT_def)
qed

text \<open>
  The theorem on two runs. On the bench, the first pass of \<open>Rotate(0)\<close> with a constant yaw
  counts one stable sample and continues, and the call returns \<open>True\<close> after 344 ms.

  In the second run \<open>Rotate(90)\<close> is called at yaw 0 and the gyro reports
  \<open>-11770265 / 2^17 = -89.79999542\<close> from then on. The product \<open>90 * 1.02f\<close> rounds to
  \<open>12032409 / 2^17 = 91.79999542\<close>, the wrapped error is \<open>-2\<close> exactly, the tolerance test
  \<^verbatim>\<open>ae <= TOL\<close> holds and the call returns \<open>True\<close> after 344 ms. (With unrounded numbers the
  target would be \<open>-91.8\<close> and the error \<open>2.0000046\<close>.)
\<close>

definition turned :: world where
  "turned = bench\<lparr>gyro := (\<lambda>t. if t = 0 then Fin 0 else Fin (- (11770265 / 131072)))\<rparr>"

theorem Rotate_stability_counter_witness:
  "rotate_iter (rot_ctx_of (Fin 0) bench (Fin 0)) (rot_state0 (Fin 0))
      (rot_loop_entry (Fin 0) bench) =
     Some (Continue \<lparr>overshot = False, stableCnt = 1, cmd = rot_cmdMain (Fin 0)\<rparr>,
           (Motor Stop 0 (mpu_update (rot_loop_entry (Fin 0) bench)))\<lparr>clock := 136\<rparr>) \<and>
   within_tol (sample_err (rot_ctx_of (Fin 0) bench (Fin 0)) (rot_loop_entry (Fin 0) bench)) \<and>
   (\<exists>w'. Rotate (Fin 0) bench = Some (True, w') \<and> motors_stopped w' \<and> clock w' = 344 \<and>
      motor_log w' = replicate 10 (Stop, 0) @ [(Stop, 0), (RotateLeft, 200)]) \<and>
   rot_target (Fin 90) turned = Fin (- (12032409 / 131072)) \<and>
   norm180 (f_sub (rot_target (Fin 90) turned) (gyro turned 110)) = Some (Fin (- 2)) \<and>
   (\<exists>w'. Rotate (Fin 90) turned = Some (True, w') \<and> motors_stopped w' \<and> clock w' = 344 \<and>
      motor_log w' = replicate 10 (Stop, 0) @ [(Stop, 0), (RotateRight, 200)])"
proof -
  let ?c = "rot_ctx_of (Fin 0) bench (Fin 0)"
  let ?st = "rot_state0 (Fin 0)"
  let ?w = "rot_loop_entry (Fin 0) bench"
  let ?st1 = "\<lparr>overshot = False, stableCnt = 1, cmd = rot_cmdMain (Fin 0)\<rparr>"
  let ?w1 = "(Motor Stop 0 (mpu_update ?w))\<lparr>clock := 136\<rparr>"
  have free: "\<And>t. \<not> stopReq_at bench t"
    by (simp add: stopReq_at_def stopReq_def bench_def)
  have tg: "rot_target (Fin 0) bench = Fin 0"
    by (rule rot_target_0) (simp_all add: bench_def float_eval)
  have g: "\<And>t. gyro bench t = Fin 0"
    by (simp add: bench_def)
  have tol: "\<And>t. in_tol (rot_target (Fin 0) bench) bench t"
    by (simp add: tg g in_tol_def within_tol_def float_eval norm180_id rot_consts)
  have run: "\<not> stopReq ?w"
    using free [of 110] by (simp add: stopReq_at_now [symmetric] bench_def)
  have time: "\<not> TIMEOUT_MS < clock ?w - t0 ?c"
    by (simp add: TIMEOUT_MS_def)
  have now: "within_tol (sample_err ?c ?w)"
    using tol [of "clock bench + 110"] by (simp add: sample_err_def in_tol_def)
  have "smartDelay 25 (Motor Stop 0 (mpu_update ?w)) = (True, ?w1)"
    using smartDelay_no_stop [of "Motor Stop 0 (mpu_update ?w)" 25] free
    by (simp add: bench_def)
  then have it: "rotate_iter ?c ?st ?w = Some (Continue ?st1, ?w1)"
    using rotate_iter_in_tol [OF run time now, of ?st]
    by (simp add: STABLE_def STABLE_CNT_def rot_state0_def)
  note T = Rotate_stability_counter [where c = ?c and st = ?st and w = ?w and f = "Continue ?st1"
      and ?w1.0 = ?w1 and phi = "Fin 0" and ?w0.0 = bench]
  from T [THEN conjunct2, THEN conjunct2, rule_format, OF free] tol
  obtain w' where res: "Rotate (Fin 0) bench = Some (True, w')" "clock w' = clock bench + 344"
    "motor_log w' =
       replicate STABLE_CNT (Stop, 0) @ (Stop, 0) # (rot_cmdMain (Fin 0), FAST_PWM) # motor_log bench"
    by blast
  with T [where w' = w', THEN conjunct2, THEN conjunct1] have "motors_stopped w'"
    by blast
  with res have first: "\<exists>w'. Rotate (Fin 0) bench = Some (True, w') \<and> motors_stopped w' \<and>
      clock w' = 344 \<and> motor_log w' = replicate 10 (Stop, 0) @ [(Stop, 0), (RotateLeft, 200)]"
    by (simp add: bench_def rot_consts rot_cmdMain_def)
  have free2: "\<And>t. \<not> stopReq_at turned t"
    by (simp add: stopReq_at_def stopReq_def bench_def turned_def)
  have tg2: "rot_target (Fin 90) turned = Fin (- (12032409 / 131072))"
    by (rule rot_target_90) (simp add: turned_def bench_def)
  have g2: "gyro turned t = Fin (- (11770265 / 131072))" if "t \<noteq> 0" for t
    using that by (simp add: turned_def)
  have c2: "clock turned = 0"
    by (simp add: turned_def bench_def)
  have err2: "norm180 (f_sub (rot_target (Fin 90) turned) (gyro turned t)) = Some (Fin (- 2))"
    if "t \<noteq> 0" for t
    using that by (simp add: tg2 g2 float_eval norm180_id)
  then have tol2: "\<forall>i<STABLE_CNT. in_tol (rot_target (Fin 90) turned) turned
      (clock turned + 110 + 26 * i)"
    by (simp add: in_tol_def within_tol_def c2 rot_consts)
  note T2 = Rotate_stability_counter [where phi = "Fin 90" and ?w0.0 = turned]
  from T2 [THEN conjunct2, THEN conjunct2, rule_format, OF free2] tol2
  obtain w2 where res2: "Rotate (Fin 90) turned = Some (True, w2)" "clock w2 = clock turned + 344"
    "motor_log w2 =
       replicate STABLE_CNT (Stop, 0) @ (Stop, 0) # (rot_cmdMain (Fin 90), FAST_PWM) #
         motor_log turned"
    by blast
  with T2 [where w' = w2, THEN conjunct2, THEN conjunct1] have "motors_stopped w2"
    by blast
  with res2 have second: "\<exists>w'. Rotate (Fin 90) turned = Some (True, w') \<and> motors_stopped w' \<and>
      clock w' = 344 \<and> motor_log w' = replicate 10 (Stop, 0) @ [(Stop, 0), (RotateRight, 200)]"
    by (simp add: bench_def turned_def rot_consts rot_cmdMain_def)
  from it now first tg2 err2 [of 110] second show ?thesis
    by simp
qed

text \<open>
  Claim C1 as stated lets the yaw be within tolerance at call time only. \<open>Rotate(0)\<close> is
  called with the yaw on target; the start-up kick (\<^verbatim>\<open>Motor(cmdMain, FAST_PWM)\<close> for 60 ms,
  which the code issues before it looks at the error) turns the robot by 5 degrees, where it
  stays. No sample taken by the loop is within tolerance, and the call returns \<open>False\<close>.
\<close>

definition nudged :: world where
  "nudged = bench\<lparr>gyro := (\<lambda>t. if t = 0 then Fin 0 else Fin 5)\<rparr>"

theorem Rotate_at_target_counterexample:
  "in_tol (rot_target (Fin 0) nudged) nudged (clock nudged) \<and>
   (\<exists>w'. Rotate (Fin 0) nudged = Some (False, w'))"
proof -
  have tg: "rot_target (Fin 0) nudged = Fin 0"
    by (rule rot_target_0) (simp_all add: nudged_def bench_def float_eval)
  have g: "gyro nudged t = (if t = 0 then Fin 0 else Fin 5)" for t
    by (simp add: nudged_def)
  have c: "clock nudged = 0"
    by (simp add: nudged_def bench_def)
  have at_call: "in_tol (rot_target (Fin 0) nudged) nudged (clock nudged)"
    by (simp add: tg g c in_tol_def within_tol_def float_eval norm180_id rot_consts)
  have later: "\<not> in_tol (rot_target (Fin 0) nudged) nudged t" if "t \<noteq> 0" for t
    using that
    by (simp add: tg g in_tol_def within_tol_def float_eval norm180_id rot_consts)
  have "\<forall>t. norm180 (f_sub (rot_target (Fin 0) nudged) (gyro nudged t)) \<noteq> None"
    by (simp add: tg g float_eval norm180_id)
  from Rotate_total [OF this] obtain r w' where res: "Rotate (Fin 0) nudged = Some (r, w')"
    by blast
  have "\<not> r"
  proof
    assume r
    with Rotate_sum [OF res]
    have "\<forall>i<STABLE. clock nudged + 110 + 26 * i \<le> clock w' \<and>
            in_tol (rot_target (Fin 0) nudged) nudged (clock w' - 26 * i)"
      by simp
    then have "110 \<le> clock w'" and "in_tol (rot_target (Fin 0) nudged) nudged (clock w')"
      by (auto simp: STABLE_def STABLE_CNT_def dest: spec [of _ 0])
    with later [of "clock w'"] show False
      by simp
  qed
  with res at_call show ?thesis
    by simp
qed

subsection \<open>The overshoot latch\<close>












subsection \<open>The exits of \<open>Rotate\<close>\<close>

text \<open>
  Claim C3, as amended. Whenever \<open>Rotate\<close> returns, it does so in one of three ways, and in
  each of them with the actuators stopped (the last \<^verbatim>\<open>Motor\<close> call was \<^verbatim>\<open>Motor(Stop, 0)\<close>,
  duty 0, driver disabled):
  \<^item> \<open>False\<close> with the stop flag set (a stop request), or
  \<^item> \<open>False\<close> more than \<open>TIMEOUT_MS = 9000\<close> ms after the call (the timeout), or
  \<^item> \<open>True\<close> (convergence): the flag is clear, at most 9000 ms have passed and the yaw
    sampled last passed the tolerance test.
  A yaw that never passes the tolerance test makes a call that returns return \<open>False\<close>.

  The call returns if every evaluation of \<open>norm180\<close> it makes returns, and that is so when
  the argument and all gyro readings are finite and at most \<open>2^23\<close> in magnitude. It is not
  so for every input: see the counterexample below.
\<close>

theorem Rotate_exits:
  "(Rotate phi w = Some (r, w') \<longrightarrow>
      motors_stopped w' \<and>
      (if r then \<not> stopReq w' \<and> clock w' - clock w \<le> TIMEOUT_MS \<and>
                 in_tol (rot_target phi w) w (clock w')
       else stopReq w' \<or> TIMEOUT_MS < clock w' - clock w) \<and>
      ((\<forall>t. \<not> in_tol (rot_target phi w) w t) \<longrightarrow> \<not> r)) \<and>
   ((\<forall>t. norm180 (f_sub (rot_target phi w) (gyro w t)) \<noteq> None) \<longrightarrow>
      (\<exists>r w'. Rotate phi w = Some (r, w'))) \<and>
   (\<bar>p\<bar> \<le> 2 ^ 23 \<longrightarrow> (\<forall>t. \<exists>z. gyro w t = Fin z \<and> \<bar>z\<bar> \<le> 2 ^ 23) \<longrightarrow>
      (\<exists>r w'. Rotate (Fin p) w = Some (r, w')))"
proof -
  have a: "motors_stopped w' \<and>
      (if r then \<not> stopReq w' \<and> clock w' - clock w \<le> TIMEOUT_MS \<and>
                 in_tol (rot_target phi w) w (clock w')
       else stopReq w' \<or> TIMEOUT_MS < clock w' - clock w) \<and>
      ((\<forall>t. \<not> in_tol (rot_target phi w) w t) \<longrightarrow> \<not> r)"
    if res: "Rotate phi w = Some (r, w')"
  proof -
    note s = Rotate_sum [OF res]
    have last: "in_tol (rot_target phi w) w (clock w')" if r
    proof -
      from s that have "\<forall>i<STABLE. in_tol (rot_target phi w) w (clock w' - 26 * i)"
        by simp
      then have "in_tol (rot_target phi w) w (clock w' - 26 * 0)"
        by (rule allE [of _ 0]) (simp add: STABLE_def STABLE_CNT_def)
      then show ?thesis
        by simp
    qed
    show ?thesis
    proof (cases r)
      case True
      with s last show ?thesis
        by (auto simp: not_less)
    next
      case False
      with s show ?thesis by simp
    qed
  qed
  have b: "\<exists>r w'. Rotate phi w = Some (r, w')"
    if "\<forall>t. norm180 (f_sub (rot_target phi w) (gyro w t)) \<noteq> None"
    using that by (rule Rotate_total)
  have c: "\<exists>r w'. Rotate (Fin p) w = Some (r, w')"
    if "\<bar>p\<bar> \<le> 2 ^ 23" "\<forall>t. \<exists>z. gyro w t = Fin z \<and> \<bar>z\<bar> \<le> 2 ^ 23"
    using Rotate_bounded_returns [OF that] by (rule Rotate_total)
  from a b c show ?thesis
    by blast
qed

text \<open>
  Three runs, one for each exit. STOP is already pressed when \<open>Rotate(90)\<close> is called (stop
  exit). \<open>Rotate(0)\<close> on the bench with a constant yaw converges. And \<open>Rotate(90)\<close> on a robot
  that does not move, with the gyro at 90 degrees throughout: the target is \<open>-1.79999542\<close>,
  the error \<open>-91.79999542\<close> at every sample, and the call returns \<open>False\<close> after more than
  9000 ms (timeout exit).
\<close>

definition stalled :: world where
  "stalled = bench\<lparr>gyro := (\<lambda>t. Fin 90)\<rparr>"

theorem Rotate_exits_witness:
  "Rotate (Fin 90) (bench\<lparr>stop_at := Some 0\<rparr>) =
     Some (False, bench\<lparr>stop_at := Some 0, motor_log := [(Stop, 0)]\<rparr>) \<and>
   motors_stopped (bench\<lparr>stop_at := Some 0, motor_log := [(Stop, 0)]\<rparr>) \<and>
   stopReq (bench\<lparr>stop_at := Some 0, motor_log := [(Stop, 0)]\<rparr>) \<and>
   (\<exists>w'. Rotate (Fin 0) bench = Some (True, w') \<and> motors_stopped w' \<and> \<not> stopReq w' \<and>
      clock w' - clock bench \<le> TIMEOUT_MS) \<and>
   (\<exists>w'. Rotate (Fin 90) stalled = Some (False, w') \<and> motors_stopped w' \<and> \<not> stopReq w' \<and>
      TIMEOUT_MS < clock w' - clock stalled)"
proof -
  have stop: "Rotate (Fin 90) (bench\<lparr>stop_at := Some 0\<rparr>) =
     Some (False, bench\<lparr>stop_at := Some 0, motor_log := [(Stop, 0)]\<rparr>)"
    by (simp add: Rotate_def board_defs bench_def rot_consts)
  note T1 = Rotate_exits [where phi = "Fin 90" and w = "bench\<lparr>stop_at := Some 0\<rparr>" and r = False
      and w' = "bench\<lparr>stop_at := Some 0, motor_log := [(Stop, 0)]\<rparr>"]
  from T1 [THEN conjunct1] stop
  have first: "motors_stopped (bench\<lparr>stop_at := Some 0, motor_log := [(Stop, 0)]\<rparr>)"
    by blast
  have pressed: "stopReq (bench\<lparr>stop_at := Some 0, motor_log := [(Stop, 0)]\<rparr>)"
    by (simp add: stopReq_def bench_def)
  have g: "\<And>t. gyro bench t = Fin 0"
    by (simp add: bench_def)
  have "\<not> stopReq_at bench (clock bench + 344)"
    by (simp add: stopReq_at_def stopReq_def bench_def)
  moreover have tg: "rot_target (Fin 0) bench = Fin 0"
    by (rule rot_target_0) (simp_all add: bench_def float_eval)
  then have "\<forall>i<STABLE. in_tol (rot_target (Fin 0) bench) bench (clock bench + 110 + 26 * i)"
    by (simp add: in_tol_def within_tol_def g float_eval norm180_id rot_consts)
  ultimately obtain w1 where conv: "Rotate (Fin 0) bench = Some (True, w1)"
    using Rotate_stable [of bench "Fin 0"] by blast
  note T2 = Rotate_exits [where phi = "Fin 0" and w = bench and r = True and w' = w1]
  from T2 [THEN conjunct1] conv
  have second: "\<exists>w'. Rotate (Fin 0) bench = Some (True, w') \<and> motors_stopped w' \<and>
      \<not> stopReq w' \<and> clock w' - clock bench \<le> TIMEOUT_MS"
    by auto
  have gs: "\<And>t. gyro stalled t = Fin 90"
    by (simp add: stalled_def)
  have free: "stop_at stalled = None"
    by (simp add: stalled_def bench_def)
  have m: "f_mul (Fin 90) K_TURN_R = Fin (12032409 / 131072)"
  proof -
    have "round32 (90 * (2139095 / 2097152)) = Fin (of_int 12032409 * pow2 (- 17))"
      by (rule round32_eval) (simp_all add: pow2_def round_even_def)
    then show ?thesis
      by (simp add: K_TURN_val pow2_def)
  qed
  have "is_float (of_int (- 235929) * pow2 (- 17))"
    by (rule is_float_dyadic) simp_all
  then have d1: "round32 (- (235929 / 131072)) = Fin (- (235929 / 131072))"
    by (simp add: pow2_def is_float_def)
  have "is_float (of_int (- 12032409) * pow2 (- 17))"
    by (rule is_float_dyadic) simp_all
  then have d2: "round32 (- (12032409 / 131072)) = Fin (- (12032409 / 131072))"
    by (simp add: pow2_def is_float_def)
  have tgs: "rot_target (Fin 90) stalled = Fin (- (235929 / 131072))"
    by (simp add: rot_target_def gs m d1)
  have errs: "norm180 (f_sub (rot_target (Fin 90) stalled) (gyro stalled t)) =
      Some (Fin (- (12032409 / 131072)))" for t
    by (simp add: tgs gs d2 norm180_id)
  then have never: "\<forall>t. \<not> in_tol (rot_target (Fin 90) stalled) stalled t"
    by (simp add: in_tol_def within_tol_def rot_consts)
  note T3 = Rotate_exits [where p = 90 and w = stalled and phi = "Fin 90"]
  from T3 [THEN conjunct2, THEN conjunct2] gs
  obtain r w3 where ret: "Rotate (Fin 90) stalled = Some (r, w3)"
    by auto
  from T3 [where r = r and w' = w3, THEN conjunct1] ret never
  have "motors_stopped w3" "\<not> r" "stopReq w3 \<or> TIMEOUT_MS < clock w3 - clock stalled"
    by auto
  moreover from Rotate_sum [OF ret] free have "\<not> stopReq w3"
    by (simp add: stopReq_def)
  ultimately have third: "\<exists>w'. Rotate (Fin 90) stalled = Some (False, w') \<and> motors_stopped w' \<and>
      \<not> stopReq w' \<and> TIMEOUT_MS < clock w' - clock stalled"
    using ret by auto
  from stop first pressed second third show ?thesis
    by blast
qed

text \<open>
  Claim C3 as stated has the call return failure whenever the yaw never reaches tolerance.
  For \<open>Rotate(1e10f)\<close> on the bench the target is \<open>-10199999488\<close>, where binary32 values are
  1024 apart. The first error is computed 110 ms after the call: \<open>norm180\<close> adds 360, the sum
  rounds back to the same value, and the loop \<^verbatim>\<open>while (a < -180) a += 360;\<close> never ends.
  The call does not return, also not when STOP is pressed at 200 ms.
\<close>

theorem Rotate_huge_angle_counterexample:
  "rot_target (Fin 10000000000) bench = Fin (- 10199999488) \<and>
   f_add (Fin (- 10199999488)) (Fin 360) = Fin (- 10199999488) \<and>
   Rotate (Fin 10000000000) bench = None \<and>
   Rotate (Fin 10000000000) (bench\<lparr>stop_at := Some 200\<rparr>) = None"
proof -
  have "round32 (10000000000 * (2139095 / 2097152)) = Fin (of_int 9960937 * pow2 10)"
    by (rule round32_eval) (simp_all add: pow2_def round_even_def)
  then have m: "f_mul (Fin 10000000000) K_TURN_R = Fin 10199999488"
    by (simp add: K_TURN_val pow2_def)
  have "is_float (of_int (- 9960937) * pow2 10)"
    by (rule is_float_dyadic) simp_all
  then have fl: "round32 (- 10199999488) = Fin (- 10199999488)"
    by (simp add: pow2_def is_float_def)
  have "round32 (- 10199999488 + 360) = Fin (of_int (- 9960937) * pow2 10)"
    by (rule round32_eval) (simp_all add: pow2_def round_even_def)
  then have stuck: "f_add (Fin (- 10199999488)) (Fin 360) = Fin (- 10199999488)"
    by (simp add: pow2_def)
  have hang: "norm180 (Fin (- 10199999488)) = None"
    using norm180_up_stuck [OF _ stuck]
    by (simp add: norm180_def norm180_down.simps [of "Fin (- 10199999488)"])
  have tg: "rot_target (Fin 10000000000) w = Fin (- 10199999488)" if "gyro w (clock w) = Fin 0" for w
    using that by (simp add: rot_target_def m fl)
  have none: "Rotate (Fin 10000000000) w = None"
    if "gyro w = (\<lambda>t. Fin 0)" "\<not> stopReq_at w (clock w + 110)" for w
  proof -
    from that(1) have g: "gyro w t = Fin 0" for t
      by simp
    have "rot_err0 (Fin 10000000000) w = None"
      by (simp add: rot_err0_def tg [OF g] g fl hang)
    with Rotate_startup [OF that(2), of "Fin 10000000000"] show ?thesis
      by simp
  qed
  have "Rotate (Fin 10000000000) bench = None"
    by (rule none) (simp_all add: bench_def stopReq_at_def stopReq_def)
  moreover have "Rotate (Fin 10000000000) (bench\<lparr>stop_at := Some 200\<rparr>) = None"
    by (rule none) (simp_all add: bench_def stopReq_at_def stopReq_def)
  moreover have "rot_target (Fin 10000000000) bench = Fin (- 10199999488)"
    by (rule tg) (simp add: bench_def)
  ultimately show ?thesis
    using stuck by blast
qed

subsection \<open>The interruptible delay\<close>

text \<open>
  Claim C4, as amended. \<open>smartDelay ms\<close> sleeps in \<open>k\<close> slices of 2 ms and reads the stop
  flag once before each slice, as long as less than \<open>ms\<close> has elapsed. If such a read finds
  the flag set (\<open>2 * k < ms\<close>, result \<open>False\<close>), it calls \<^verbatim>\<open>Motor(Stop, 0)\<close>, disables the
  enable line and returns at once, before the requested time is over. It returns \<open>True\<close> only
  when at least \<open>ms\<close> has elapsed and every read before a slice found the flag clear; then
  nothing but the clock has changed. There is no read after the last slice, and none at all
  when \<open>ms = 0\<close>.
\<close>

theorem smartDelay_checks_before_each_slice:
  assumes "smartDelay ms w = (r, w')"
  shows "\<exists>k. clock w' = clock w + 2 * k \<and>
          (\<forall>j<k. 2 * j < ms \<and> \<not> stopReq_at w (clock w + 2 * j)) \<and>
          (if r then ms \<le> 2 * k \<and> w' = w\<lparr>clock := clock w + 2 * k\<rparr>
           else 2 * k < ms \<and> stopReq_at w (clock w + 2 * k) \<and> motors_stopped w' \<and>
                w' = enableMotors False (Motor Stop 0 (w\<lparr>clock := clock w + 2 * k\<rparr>)))"
proof -
  from smartDelay_char [OF assms] obtain k where k: "clock w' = clock w + 2 * k"
    "\<forall>j<k. \<not> stopReq_at w (clock w + 2 * j) \<and> 2 * j < ms"
    "if r then ms \<le> 2 * k \<and> w' = w\<lparr>clock := clock w + 2 * k\<rparr>
            else 2 * k < ms \<and> stopReq_at w (clock w + 2 * k) \<and>
                 w' = enableMotors False (Motor Stop 0 (w\<lparr>clock := clock w + 2 * k\<rparr>))"
    by blast
  show ?thesis
  proof (intro exI [of _ k] conjI)
    show "clock w' = clock w + 2 * k" by (rule k)
    show "\<forall>j<k. 2 * j < ms \<and> \<not> stopReq_at w (clock w + 2 * j)"
      using k(2) by blast
    show "if r then ms \<le> 2 * k \<and> w' = w\<lparr>clock := clock w + 2 * k\<rparr>
           else 2 * k < ms \<and> stopReq_at w (clock w + 2 * k) \<and> motors_stopped w' \<and>
                w' = enableMotors False (Motor Stop 0 (w\<lparr>clock := clock w + 2 * k\<rparr>))"
      using k(3) by (cases r) simp_all
  qed
qed

text \<open>
  The theorem at work: a 5 ms wait with STOP pressed at 3 ms. The reads at 0 ms and 2 ms
  find the flag clear, the read at 4 ms finds it set.
\<close>

theorem smartDelay_checks_witness:
  "smartDelay 5 (bench\<lparr>stop_at := Some 3\<rparr>) =
     (False, bench\<lparr>stop_at := Some 3, clock := 4, motor_log := [(Stop, 0)]\<rparr>) \<and>
   (\<exists>k. 4 = 2 * k \<and>
        (\<forall>j<k. 2 * j < (5::nat) \<and> \<not> stopReq_at (bench\<lparr>stop_at := Some 3\<rparr>) (2 * j)) \<and>
        2 * k < (5::nat) \<and> stopReq_at (bench\<lparr>stop_at := Some 3\<rparr>) (2 * k) \<and>
        motors_stopped (bench\<lparr>stop_at := Some 3, clock := 4, motor_log := [(Stop, 0)]\<rparr>))"
proof -
  have run: "smartDelay 5 (bench\<lparr>stop_at := Some 3\<rparr>) =
     (False, bench\<lparr>stop_at := Some 3, clock := 4, motor_log := [(Stop, 0)]\<rparr>)"
    by (simp add: board_defs bench_def rot_consts)
  from smartDelay_checks_before_each_slice [OF run] show ?thesis
    using run by (simp add: bench_def)
qed

text \<open>
  Claim C4 as stated fails on two inputs, both with the motors running at the kick duty.
  With the flag already set, \<^verbatim>\<open>smartDelay(0)\<close> returns \<open>True\<close> and leaves the motors running:
  the loop guard \<^verbatim>\<open>millis() - t0 < ms\<close> is false before the first read of the flag. With
  STOP pressed 1 ms into \<^verbatim>\<open>smartDelay(2)\<close>, the only read, at 0 ms, is clear; after the slice
  the guard is false and the call returns \<open>True\<close> with the flag set and the motors running.
\<close>

theorem smartDelay_counterexample:
  "stopReq (Motor RotateRight FAST_PWM (bench\<lparr>stop_at := Some 0\<rparr>)) \<and>
   smartDelay 0 (Motor RotateRight FAST_PWM (bench\<lparr>stop_at := Some 0\<rparr>)) =
     (True, Motor RotateRight FAST_PWM (bench\<lparr>stop_at := Some 0\<rparr>)) \<and>
   smartDelay 2 (Motor RotateRight FAST_PWM (bench\<lparr>stop_at := Some 1\<rparr>)) =
     (True, (Motor RotateRight FAST_PWM (bench\<lparr>stop_at := Some 1\<rparr>))\<lparr>clock := 2\<rparr>) \<and>
   stopReq ((Motor RotateRight FAST_PWM (bench\<lparr>stop_at := Some 1\<rparr>))\<lparr>clock := 2\<rparr>) \<and>
   pwm ((Motor RotateRight FAST_PWM (bench\<lparr>stop_at := Some 1\<rparr>))\<lparr>clock := 2\<rparr>) = 200"
  by (simp add: board_defs bench_def rot_consts)

section \<open>Arduino.ino: the command language and its engine\<close>

text \<open>
  The second sketch runs a program of text commands without blocking: the runner starts one
  command, polls it once per cycle of \<^verbatim>\<open>loop()\<close> and pulls the next line when it has
  finished. Time is what \<^verbatim>\<open>IClock::now()\<close> returns, an \<^verbatim>\<open>unsigned long\<close> of 32 bits on the
  board; each cycle is given the clock reading of that cycle.
\<close>

subsection \<open>Command table\<close>

datatype CommandId = Forward | Backward | Left90 | Right90 | PaintOn | PaintOff | Wait

text \<open>\<^verbatim>\<open>struct CommandSpec\<close>; the field \<^verbatim>\<open>id\<close> is \<open>cid\<close> here.\<close>

record CommandSpec =
  token :: string
  cid :: CommandId
  hasArgument :: bool

definition COMMAND_TABLE :: "CommandSpec list" where
  "COMMAND_TABLE =
    [\<lparr>token = ''F'', cid = Forward, hasArgument = True\<rparr>,
     \<lparr>token = ''B'', cid = Backward, hasArgument = True\<rparr>,
     \<lparr>token = ''L'', cid = Left90, hasArgument = False\<rparr>,
     \<lparr>token = ''R'', cid = Right90, hasArgument = False\<rparr>,
     \<lparr>token = ''paintON'', cid = PaintOn, hasArgument = False\<rparr>,
     \<lparr>token = ''paintOFF'', cid = PaintOff, hasArgument = False\<rparr>,
     \<lparr>token = ''WAIT'', cid = Wait, hasArgument = True\<rparr>]"

subsection \<open>The robot facade and its drivers\<close>

text \<open>
  What the program does to the outside: the four H-bridge pins \<open>(LF, LB, RF, RB)\<close> written by
  \<^verbatim>\<open>MotorDriver\<close> (\<open>True\<close> is HIGH), the calls made on the driver interfaces
  \<^verbatim>\<open>IMotionDriver\<close> and \<^verbatim>\<open>IPainter\<close> in the order they were made, and the lines printed on
  \<^verbatim>\<open>Serial\<close>, oldest first.
\<close>

datatype driver_call =
  DForward | DBackward | DRotateLeft | DRotateRight | DStop | DPaintOn | DPaintOff

record io =
  pins :: "bool \<times> bool \<times> bool \<times> bool"
  calls :: "driver_call list"
  serial :: "string list"

definition println :: "string \<Rightarrow> io \<Rightarrow> io" where
  "println s x = x\<lparr>serial := serial x @ [s]\<rparr>"

definition robot_forward :: "io \<Rightarrow> io" where
  "robot_forward x = x\<lparr>pins := (True, False, True, False), calls := calls x @ [DForward]\<rparr>"

definition robot_backward :: "io \<Rightarrow> io" where
  "robot_backward x = x\<lparr>pins := (False, True, False, True), calls := calls x @ [DBackward]\<rparr>"

definition robot_left90 :: "io \<Rightarrow> io" where
  "robot_left90 x = x\<lparr>pins := (False, True, True, False), calls := calls x @ [DRotateLeft]\<rparr>"

definition robot_right90 :: "io \<Rightarrow> io" where
  "robot_right90 x = x\<lparr>pins := (True, False, False, True), calls := calls x @ [DRotateRight]\<rparr>"

definition robot_stop :: "io \<Rightarrow> io" where
  "robot_stop x = x\<lparr>pins := (False, False, False, False), calls := calls x @ [DStop]\<rparr>"

definition robot_paintOn :: "io \<Rightarrow> io" where
  "robot_paintOn x = println ''[PAINT] ON'' (x\<lparr>calls := calls x @ [DPaintOn]\<rparr>)"

definition robot_paintOff :: "io \<Rightarrow> io" where
  "robot_paintOff x = println ''[PAINT] OFF'' (x\<lparr>calls := calls x @ [DPaintOff]\<rparr>)"

subsection \<open>Commands\<close>

text \<open>
  \<^verbatim>\<open>class TimedCommand\<close>: \<^verbatim>\<open>start\<close> records the clock and sets \<^verbatim>\<open>active\<close>; \<^verbatim>\<open>update\<close> compares
  \<^verbatim>\<open>clk.now() - startTime\<close> (unsigned, so modulo \<open>2^32\<close>) with \<^verbatim>\<open>duration\<close> and on expiry calls
  \<^verbatim>\<open>onFinish\<close> and clears \<^verbatim>\<open>active\<close>.
\<close>

record TimedCommand =
  duration :: "32 word"
  startTime :: "32 word"
  active :: bool

definition TimedCommand_new :: "32 word \<Rightarrow> TimedCommand" where
  "TimedCommand_new d = \<lparr>duration = d, startTime = 0, active = False\<rparr>"

definition TimedCommand_start :: "TimedCommand \<Rightarrow> 32 word \<Rightarrow> TimedCommand" where
  "TimedCommand_start t now = t\<lparr>startTime := now, active := True\<rparr>"

definition TimedCommand_update ::
  "(io \<Rightarrow> io) \<Rightarrow> TimedCommand \<Rightarrow> 32 word \<Rightarrow> io \<Rightarrow> TimedCommand \<times> io" where
  "TimedCommand_update onFinish t now x =
     (if \<not> active t then (t, x)
      else if now - startTime t \<ge> duration t then (t\<lparr>active := False\<rparr>, onFinish x)
      else (t, x))"

definition TimedCommand_finished :: "TimedCommand \<Rightarrow> bool" where
  "TimedCommand_finished t = (\<not> active t)"

definition ROTATE_90_MS :: "32 word" where
  "ROTATE_90_MS = 420"

text \<open>
  The classes derived from \<^verbatim>\<open>ICommand\<close>, each with its member variables: the timed ones
  carry their \<^verbatim>\<open>TimedCommand\<close> part, the paint commands their flag \<^verbatim>\<open>done\<close>.
\<close>

datatype ICommand =
  CmdForward TimedCommand
| CmdBackward TimedCommand
| CmdLeft90 TimedCommand
| CmdRight90 TimedCommand
| CmdPaintOn bool
| CmdPaintOff bool
| CmdWait TimedCommand

fun cmd_start :: "ICommand \<Rightarrow> 32 word \<Rightarrow> io \<Rightarrow> ICommand \<times> io" where
  "cmd_start (CmdForward t) now x = (CmdForward (TimedCommand_start t now), robot_forward x)"
| "cmd_start (CmdBackward t) now x = (CmdBackward (TimedCommand_start t now), robot_backward x)"
| "cmd_start (CmdLeft90 t) now x = (CmdLeft90 (TimedCommand_start t now), robot_left90 x)"
| "cmd_start (CmdRight90 t) now x = (CmdRight90 (TimedCommand_start t now), robot_right90 x)"
| "cmd_start (CmdPaintOn done) now x = (CmdPaintOn True, robot_paintOn x)"
| "cmd_start (CmdPaintOff done) now x = (CmdPaintOff True, robot_paintOff x)"
| "cmd_start (CmdWait t) now x = (CmdWait (TimedCommand_start t now), robot_stop x)"

text \<open>\<^verbatim>\<open>onFinish\<close> is \<^verbatim>\<open>r.stop()\<close> in each of the five timed classes.\<close>

fun cmd_update :: "ICommand \<Rightarrow> 32 word \<Rightarrow> io \<Rightarrow> ICommand \<times> io" where
  "cmd_update (CmdForward t) now x =
     (let (t1, x1) = TimedCommand_update robot_stop t now x in (CmdForward t1, x1))"
| "cmd_update (CmdBackward t) now x =
     (let (t1, x1) = TimedCommand_update robot_stop t now x in (CmdBackward t1, x1))"
| "cmd_update (CmdLeft90 t) now x =
     (let (t1, x1) = TimedCommand_update robot_stop t now x in (CmdLeft90 t1, x1))"
| "cmd_update (CmdRight90 t) now x =
     (let (t1, x1) = TimedCommand_update robot_stop t now x in (CmdRight90 t1, x1))"
| "cmd_update (CmdPaintOn done) now x = (CmdPaintOn done, x)"
| "cmd_update (CmdPaintOff done) now x = (CmdPaintOff done, x)"
| "cmd_update (CmdWait t) now x =
     (let (t1, x1) = TimedCommand_update robot_stop t now x in (CmdWait t1, x1))"

fun cmd_finished :: "ICommand \<Rightarrow> bool" where
  "cmd_finished (CmdForward t) = TimedCommand_finished t"
| "cmd_finished (CmdBackward t) = TimedCommand_finished t"
| "cmd_finished (CmdLeft90 t) = TimedCommand_finished t"
| "cmd_finished (CmdRight90 t) = TimedCommand_finished t"
| "cmd_finished (CmdPaintOn done) = done"
| "cmd_finished (CmdPaintOff done) = done"
| "cmd_finished (CmdWait t) = TimedCommand_finished t"

subsection \<open>Factory and parser\<close>

text \<open>
  \<^verbatim>\<open>(unsigned long)value\<close> for a \<^verbatim>\<open>float\<close>: the fraction is dropped. For a value outside
  \<open>[0, 2^32)\<close> C++ leaves the conversion undefined; the model reduces modulo \<open>2^32\<close> there and
  no theorem below depends on it.
\<close>

definition to_ulong :: "real \<Rightarrow> 32 word" where
  "to_ulong v = word_of_int (if v \<ge> 0 then \<lfloor>v\<rfloor> else \<lceil>v\<rceil>)"

text \<open>
  \<^verbatim>\<open>CommandFactory::create\<close> returns a pointer; \<open>None\<close> is \<^verbatim>\<open>nullptr\<close>, which the function
  returns for no value of the enumeration.
\<close>

fun create :: "CommandId \<Rightarrow> real \<Rightarrow> ICommand option" where
  "create Forward v = Some (CmdForward (TimedCommand_new (to_ulong v)))"
| "create Backward v = Some (CmdBackward (TimedCommand_new (to_ulong v)))"
| "create Left90 v = Some (CmdLeft90 (TimedCommand_new ROTATE_90_MS))"
| "create Right90 v = Some (CmdRight90 (TimedCommand_new ROTATE_90_MS))"
| "create PaintOn v = Some (CmdPaintOn False)"
| "create PaintOff v = Some (CmdPaintOff False)"
| "create Wait v = Some (CmdWait (TimedCommand_new (to_ulong v)))"

text \<open>
  The members of the Arduino \<^verbatim>\<open>String\<close> class the parser uses, on \<^typ>\<open>string\<close>:
  \<^verbatim>\<open>trim\<close> removes leading and trailing characters for which \<^verbatim>\<open>isspace\<close> holds,
  \<^verbatim>\<open>charAt\<close> returns 0 outside the string, \<^verbatim>\<open>indexOf\<close> returns -1 when the character does
  not occur, \<^verbatim>\<open>substring(from)\<close> runs to the end of the string. \<^verbatim>\<open>toFloat\<close> is not
  modelled: the parser takes it as the parameter \<open>toFloat\<close>.
\<close>

definition isspace :: "char \<Rightarrow> bool" where
  "isspace c \<longleftrightarrow> c \<in> {CHR '' '', CHR 0x09, CHR 0x0A, CHR 0x0B, CHR 0x0C, CHR 0x0D}"

definition trim :: "string \<Rightarrow> string" where
  "trim s = rev (dropWhile isspace (rev (dropWhile isspace s)))"

definition startsWith :: "string \<Rightarrow> string \<Rightarrow> bool" where
  "startsWith s p \<longleftrightarrow> take (length p) s = p"

definition charAt :: "string \<Rightarrow> nat \<Rightarrow> char" where
  "charAt s i = (if i < length s then s ! i else CHR 0x00)"

definition indexOf :: "string \<Rightarrow> char \<Rightarrow> int" where
  "indexOf s c = (if c \<in> set s then int (length (takeWhile (\<lambda>x. x \<noteq> c) s)) else - 1)"

definition substring :: "string \<Rightarrow> int \<Rightarrow> string" where
  "substring s from = drop (nat from) s"

definition startsWithToken :: "string \<Rightarrow> string \<Rightarrow> bool" where
  "startsWithToken line tok =
     (if \<not> startsWith line tok then False
      else let len = length tok in
        if length line = len then True
        else let c = charAt line len in c = CHR '' '' \<or> c = CHR 0x09)"

definition extractArgument :: "(string \<Rightarrow> real) \<Rightarrow> string \<Rightarrow> real" where
  "extractArgument toFloat line =
     (let p = indexOf line (CHR '' '') in
      if p < 0 then 0 else toFloat (substring line (p + 1)))"

text \<open>
  \<^verbatim>\<open>CommandParser::parse\<close>: \<open>parse_table\<close> is the loop over \<^verbatim>\<open>COMMAND_TABLE\<close>, on the entries
  still to be tried.
\<close>

fun parse_table :: "(string \<Rightarrow> real) \<Rightarrow> string \<Rightarrow> CommandSpec list \<Rightarrow> ICommand option" where
  "parse_table toFloat line [] = None"
| "parse_table toFloat line (spec # rest) =
     (if startsWithToken line (token spec)
      then (let v = (if hasArgument spec then extractArgument toFloat line else 0)
            in create (cid spec) v)
      else parse_table toFloat line rest)"

definition parse :: "(string \<Rightarrow> real) \<Rightarrow> string \<Rightarrow> ICommand option" where
  "parse toFloat line0 =
     (let line = trim line0 in
      if length line = 0 then None else parse_table toFloat line COMMAND_TABLE)"

subsection \<open>Program files\<close>

text \<open>
  \<^verbatim>\<open>MemoryFile\<close>: the lines of the program and the read position; \<^verbatim>\<open>count\<close> is the number of
  lines. \<^verbatim>\<open>readLine\<close> does not check the position: the runner calls it after
  \<^verbatim>\<open>available()\<close> only, and the model returns the empty line elsewhere.
\<close>

record MemoryFile =
  lines :: "string list"
  idx :: nat

definition MemoryFile_new :: "string list \<Rightarrow> MemoryFile" where
  "MemoryFile_new l = \<lparr>lines = l, idx = 0\<rparr>"

definition available :: "MemoryFile \<Rightarrow> bool" where
  "available f \<longleftrightarrow> idx f < length (lines f)"

definition readLine :: "MemoryFile \<Rightarrow> string \<times> MemoryFile" where
  "readLine f = ((if idx f < length (lines f) then lines f ! idx f else []), f\<lparr>idx := idx f + 1\<rparr>)"

definition SQUARE :: "string list" where
  "SQUARE = [''paintON'', ''F 700'', ''R'', ''F 700'', ''R'', ''F 700'', ''R'', ''F 700'', ''R'',
             ''paintOFF'']"

definition TRIANGLE :: "string list" where
  "TRIANGLE = [''paintON'', ''F 700'', ''R'', ''R'', ''F 700'', ''R'', ''R'', ''F 700'',
               ''paintOFF'']"

definition FS_ENTRIES :: "(string \<times> string list) list" where
  "FS_ENTRIES = [(''square.txt'', SQUARE), (''triangle.txt'', TRIANGLE)]"

text \<open>\<^verbatim>\<open>MemoryFileSystem::open\<close>: a fresh file on the first entry of that name.\<close>

fun fs_open :: "(string \<times> string list) list \<Rightarrow> string \<Rightarrow> MemoryFile option" where
  "fs_open [] name = None"
| "fs_open ((n, l) # rest) name = (if name = n then Some (MemoryFile_new l) else fs_open rest name)"

subsection \<open>The program runner\<close>

text \<open>The members of \<^verbatim>\<open>ProgramRunner\<close>; \<^verbatim>\<open>IFile* file\<close> is \<open>file_ptr\<close> here.\<close>

record ProgramRunner =
  file_ptr :: "MemoryFile option"
  current :: "ICommand option"
  running :: bool
  finishedAll :: bool

definition ProgramRunner_new :: ProgramRunner where
  "ProgramRunner_new = \<lparr>file_ptr = None, current = None, running = False, finishedAll = False\<rparr>"

definition ProgramRunner_stop :: "ProgramRunner \<times> io \<Rightarrow> ProgramRunner \<times> io" where
  "ProgramRunner_stop = (\<lambda>(r, x).
     (r\<lparr>current := None, file_ptr := None, running := False, finishedAll := False\<rparr>, robot_stop x))"

definition ProgramRunner_start :: "MemoryFile option \<Rightarrow> ProgramRunner \<times> io \<Rightarrow> ProgramRunner \<times> io" where
  "ProgramRunner_start f s =
     (let (r, x) = ProgramRunner_stop s in (r\<lparr>file_ptr := f, running := (f \<noteq> None)\<rparr>, x))"

definition isRunning :: "ProgramRunner \<Rightarrow> bool" where
  "isRunning r = running r"

definition isFinishedAll :: "ProgramRunner \<Rightarrow> bool" where
  "isFinishedAll r = finishedAll r"

text \<open>
  \<^verbatim>\<open>ProgramRunner::update\<close>, given the clock reading of this cycle. The three parts of the
  source: nothing to do when not running; poll the current command and drop it once
  finished; otherwise finish the program when the file is exhausted, or read one line, echo
  it, parse it and start the command if there is one.
\<close>

definition ProgramRunner_update ::
  "(string \<Rightarrow> real) \<Rightarrow> 32 word \<Rightarrow> ProgramRunner \<times> io \<Rightarrow> ProgramRunner \<times> io" where
  "ProgramRunner_update toFloat now = (\<lambda>(r, x).
     if \<not> running r then (r, x)
     else case current r of
       Some c \<Rightarrow>
         (let (c1, x1) = cmd_update c now x in
          if cmd_finished c1 then (r\<lparr>current := None\<rparr>, x1)
          else (r\<lparr>current := Some c1\<rparr>, x1))
     | None \<Rightarrow>
         (if file_ptr r = None \<or> \<not> available (the (file_ptr r))
          then (r\<lparr>running := False, finishedAll := True\<rparr>, robot_stop x)
          else let (line, f1) = readLine (the (file_ptr r));
                   r1 = r\<lparr>file_ptr := Some f1\<rparr>;
                   x1 = println line x
               in case parse toFloat line of
                    None \<Rightarrow> (r1\<lparr>current := None\<rparr>, x1)
                  | Some c \<Rightarrow> (let (c1, x2) = cmd_start c now x1 in (r1\<lparr>current := Some c1\<rparr>, x2))))"

text \<open>Consecutive cycles of \<^verbatim>\<open>update()\<close>, one per clock reading.\<close>

fun run_cycles ::
  "(string \<Rightarrow> real) \<Rightarrow> 32 word list \<Rightarrow> ProgramRunner \<times> io \<Rightarrow> ProgramRunner \<times> io" where
  "run_cycles toFloat [] s = s"
| "run_cycles toFloat (now # ts) s = run_cycles toFloat ts (ProgramRunner_update toFloat now s)"

subsection \<open>The program controller\<close>

text \<open>
  \<^verbatim>\<open>ProgramController\<close> with the objects it is wired to: the runner, the flag \<^verbatim>\<open>last\<close> of
  \<^verbatim>\<open>ButtonStartTrigger\<close> (\<open>last_btn\<close>) and the flag \<^verbatim>\<open>enabled\<close> of \<^verbatim>\<open>RunControl\<close>. The selector and the
  file system are parameters of \<open>ProgramController_update\<close>: the name \<^verbatim>\<open>selectProgram()\<close> returns and
  the entries of the file system.
\<close>

record ProgramController =
  runner :: ProgramRunner
  last_btn :: bool
  enabled :: bool

text \<open>\<^verbatim>\<open>ButtonStartTrigger::startRequested\<close>, given the level read from the pin.\<close>

definition startRequested :: "bool \<Rightarrow> ProgramController \<Rightarrow> bool \<times> ProgramController" where
  "startRequested pin c =
     (let cur = \<not> pin; edge = cur \<and> \<not> last_btn c in (edge, c\<lparr>last_btn := cur\<rparr>))"

text \<open>The first part of \<^verbatim>\<open>ProgramController::update\<close>: what a start edge leads to.\<close>

definition on_start_edge ::
  "string \<Rightarrow> (string \<times> string list) list \<Rightarrow> ProgramController \<times> io \<Rightarrow> ProgramController \<times> io" where
  "on_start_edge name entries = (\<lambda>(c, x).
     if \<not> enabled c then (c, println ''[RUN] blocked by runControl'' x)
     else if isRunning (runner c) then (c, println ''[RUN] already running'' x)
     else case fs_open entries name of
            None \<Rightarrow> (c, println (''[RUN] file not found: '' @ name) x)
          | Some f \<Rightarrow>
              (let (r1, x1) = ProgramRunner_start (Some f) (runner c, println (''[RUN] start: '' @ name) x)
               in (c\<lparr>runner := r1\<rparr>, x1)))"

text \<open>The second part: one cycle of the runner when enabled, and the report.\<close>

definition run_program ::
  "(string \<Rightarrow> real) \<Rightarrow> 32 word \<Rightarrow> ProgramController \<times> io \<Rightarrow> ProgramController \<times> io" where
  "run_program toFloat now = (\<lambda>(c, x).
     if enabled c
     then (let (r1, x1) = ProgramRunner_update toFloat now (runner c, x) in
           (c\<lparr>runner := r1\<rparr>, if isFinishedAll r1 then println ''[RUN] finished'' x1 else x1))
     else (c, x))"

definition ProgramController_update ::
  "string \<Rightarrow> (string \<times> string list) list \<Rightarrow> (string \<Rightarrow> real) \<Rightarrow> bool \<Rightarrow> 32 word \<Rightarrow>
     ProgramController \<times> io \<Rightarrow> ProgramController \<times> io" where
  "ProgramController_update name entries toFloat pin now = (\<lambda>(c, x).
     let (edge, c1) = startRequested pin c;
         s1 = (if edge then on_start_edge name entries (c1, x) else (c1, x))
     in run_program toFloat now s1)"

subsection \<open>Facts about the parser and the runner\<close>

text \<open>The first token of a line: the characters before the first blank or tab.\<close>

definition first_token :: "string \<Rightarrow> string" where
  "first_token s = takeWhile (\<lambda>c. c \<noteq> CHR '' '' \<and> c \<noteq> CHR 0x09) s"

lemma startsWithToken_append:
  "startsWithToken (tok @ rest) tok \<longleftrightarrow> rest = [] \<or> hd rest = CHR '' '' \<or> hd rest = CHR 0x09"
  by (cases rest) (simp_all add: startsWithToken_def startsWith_def charAt_def Let_def nth_append)

lemma first_token_append:
  assumes "\<forall>c\<in>set tok. c \<noteq> CHR '' '' \<and> c \<noteq> CHR 0x09"
  shows "first_token (tok @ rest) = tok \<longleftrightarrow> rest = [] \<or> hd rest = CHR '' '' \<or> hd rest = CHR 0x09"
proof -
  have "takeWhile (\<lambda>c. c \<noteq> CHR '' '' \<and> c \<noteq> CHR 0x09) (tok @ rest) =
      tok @ takeWhile (\<lambda>c. c \<noteq> CHR '' '' \<and> c \<noteq> CHR 0x09) rest"
    using assms by (intro takeWhile_append2) simp
  then show ?thesis
    by (cases rest) (auto simp: first_token_def)
qed

lemma startsWithToken_iff:
  assumes "\<forall>c\<in>set tok. c \<noteq> CHR '' '' \<and> c \<noteq> CHR 0x09"
  shows "startsWithToken line tok \<longleftrightarrow> first_token line = tok"
proof (cases "take (length tok) line = tok")
  case True
  have "take (length tok) line @ drop (length tok) line = line"
    by (rule append_take_drop_id)
  with True have line: "line = tok @ drop (length tok) line"
    by simp
  show ?thesis
    by (subst line, subst (2) line)
      (simp only: startsWithToken_append first_token_append [OF assms])
next
  case False
  then have "\<not> startsWithToken line tok"
    by (simp add: startsWithToken_def startsWith_def)
  moreover have "first_token line \<noteq> tok"
  proof
    assume ft: "first_token line = tok"
    have "takeWhile (\<lambda>c. c \<noteq> CHR '' '' \<and> c \<noteq> CHR 0x09) line @
          dropWhile (\<lambda>c. c \<noteq> CHR '' '' \<and> c \<noteq> CHR 0x09) line = line"
      by (rule takeWhile_dropWhile_id)
    with ft have "line = tok @ dropWhile (\<lambda>c. c \<noteq> CHR '' '' \<and> c \<noteq> CHR 0x09) line"
      by (simp add: first_token_def)
    then have "take (length tok) line = take (length tok) (tok @ dropWhile (\<lambda>c. c \<noteq> CHR '' '' \<and> c \<noteq> CHR 0x09) line)"
      by simp
    with False show False by simp
  qed
  ultimately show ?thesis by simp
qed

lemma parse_table_by_first_token:
  "parse_table toFloat line COMMAND_TABLE =
     (if first_token line = ''F'' then create Forward (extractArgument toFloat line)
      else if first_token line = ''B'' then create Backward (extractArgument toFloat line)
      else if first_token line = ''L'' then create Left90 0
      else if first_token line = ''R'' then create Right90 0
      else if first_token line = ''paintON'' then create PaintOn 0
      else if first_token line = ''paintOFF'' then create PaintOff 0
      else if first_token line = ''WAIT'' then create Wait (extractArgument toFloat line)
      else None)"
  by (simp add: COMMAND_TABLE_def startsWithToken_iff)

lemma first_token_Nil [simp]: "first_token [] = []"
  by (simp add: first_token_def)

lemma parse_unknown:
  assumes "first_token (trim line) \<notin> token ` set COMMAND_TABLE"
  shows "parse toFloat line = None"
proof -
  from assms have "first_token (trim line) \<notin> {''F'', ''B'', ''L'', ''R'', ''paintON'', ''paintOFF'', ''WAIT''}"
    by (simp add: COMMAND_TABLE_def)
  then show ?thesis
    by (simp add: parse_def Let_def parse_table_by_first_token)
qed

lemma to_ulong_0 [simp]: "to_ulong 0 = 0"
  by (simp add: to_ulong_def)

subsection \<open>Arguments that are missing or not numbers\<close>


lemma update_idle:
  "\<not> running r \<Longrightarrow> ProgramRunner_update toFloat now (r, x) = (r, x)"
  by (simp add: ProgramRunner_update_def)

lemma update_poll:
  assumes "running r" "current r = Some c"
  shows "ProgramRunner_update toFloat now (r, x) =
    (r\<lparr>current := (if cmd_finished (fst (cmd_update c now x)) then None
                     else Some (fst (cmd_update c now x)))\<rparr>,
     snd (cmd_update c now x))"
  using assms by (simp add: ProgramRunner_update_def split: prod.splits)

lemma update_exhausted:
  assumes "running r" "current r = None" "file_ptr r = None \<or> \<not> available (the (file_ptr r))"
  shows "ProgramRunner_update toFloat now (r, x) =
    (r\<lparr>running := False, finishedAll := True\<rparr>, robot_stop x)"
  using assms by (auto simp add: ProgramRunner_update_def)

lemma update_read:
  assumes "running r" "current r = None" "file_ptr r = Some f" "available f"
  shows "ProgramRunner_update toFloat now (r, x) =
    (case parse toFloat (lines f ! idx f) of
       None \<Rightarrow> (r\<lparr>file_ptr := Some (f\<lparr>idx := idx f + 1\<rparr>)\<rparr>, println (lines f ! idx f) x)
     | Some c \<Rightarrow>
         (r\<lparr>file_ptr := Some (f\<lparr>idx := idx f + 1\<rparr>),
            current := Some (fst (cmd_start c now (println (lines f ! idx f) x)))\<rparr>,
          snd (cmd_start c now (println (lines f ! idx f) x))))"
  using assms
  by (cases r)
    (auto simp add: ProgramRunner_update_def readLine_def available_def Let_def
      split: prod.splits option.splits)

lemma skip_all:
  assumes "running r" "current r = None" "file_ptr r = Some f"
    and "\<forall>i. idx f \<le> i \<and> i < length (lines f) \<longrightarrow> parse toFloat (lines f ! i) = None"
    and "length ts = length (lines f) - idx f + 1"
  shows "\<exists>r1. run_cycles toFloat ts (r, x) =
           (r1, robot_stop (x\<lparr>serial := serial x @ drop (idx f) (lines f)\<rparr>)) \<and>
         finishedAll r1 \<and> \<not> running r1 \<and> current r1 = None"
  using assms
proof (induction "length (lines f) - idx f" arbitrary: r f x ts)
  case 0
  then obtain now where ts: "ts = [now]"
    by (cases ts) simp_all
  from 0 have "\<not> available f" "drop (idx f) (lines f) = []"
    by (simp_all add: available_def)
  with 0 ts show ?case
    by (simp add: update_exhausted)
next
  case (Suc n)
  then obtain now ts1 where ts: "ts = now # ts1" "length ts1 = n + 1"
    by (cases ts) simp_all
  from Suc have av: "available f" "idx f < length (lines f)"
    by (simp_all add: available_def)
  with Suc.prems have skip: "parse toFloat (lines f ! idx f) = None"
    by simp
  let ?f1 = "f\<lparr>idx := idx f + 1\<rparr>"
  let ?r1 = "r\<lparr>file_ptr := Some ?f1\<rparr>"
  let ?x1 = "println (lines f ! idx f) x"
  have step: "ProgramRunner_update toFloat now (r, x) = (?r1, ?x1)"
    using update_read [OF Suc.prems(1-3) av(1), of toFloat now x] skip by simp
  have n: "n = length (lines ?f1) - idx ?f1"
    using Suc.hyps(2) by simp
  have rest: "\<forall>i. idx ?f1 \<le> i \<and> i < length (lines ?f1) \<longrightarrow> parse toFloat (lines ?f1 ! i) = None"
    using Suc.prems(4) by simp
  have len: "length ts1 = length (lines ?f1) - idx ?f1 + 1"
    using ts n by simp
  from Suc.hyps(1) [OF n _ _ _ rest len, of ?r1 ?x1] Suc.prems(1,2)
  obtain r1 where "run_cycles toFloat ts1 (?r1, ?x1) =
      (r1, robot_stop (?x1\<lparr>serial := serial ?x1 @ drop (idx ?f1) (lines ?f1)\<rparr>))"
    "finishedAll r1" "\<not> running r1" "current r1 = None"
    by auto
  moreover have "?x1\<lparr>serial := serial ?x1 @ drop (idx ?f1) (lines ?f1)\<rparr> =
      x\<lparr>serial := serial x @ drop (idx f) (lines f)\<rparr>"
    using av(2) by (simp add: println_def Cons_nth_drop_Suc)
  ultimately show ?case
    using ts step by simp
qed

subsection \<open>Concrete inputs\<close>

text \<open>
  A stand-in for \<^verbatim>\<open>String::toFloat\<close> on which the programs of the sketch can be run: the
  value of the leading decimal digits, 0 when the text does not start with a digit.
\<close>

definition is_digit :: "char \<Rightarrow> bool" where
  "is_digit c \<longleftrightarrow> (48::nat) \<le> of_char c \<and> (of_char c :: nat) \<le> 57"

definition decimal_toFloat :: "string \<Rightarrow> real" where
  "decimal_toFloat s =
     real (foldl (\<lambda>n c. 10 * n + (of_char c - 48)) 0 (takeWhile is_digit s))"

lemma decimal_examples:
  "decimal_toFloat ''500'' = 500" "decimal_toFloat ''700'' = 700" "decimal_toFloat ''abc'' = 0"
  by (simp_all add: decimal_toFloat_def is_digit_def)

subsection \<open>One command at a time\<close>

text \<open>
  Claim C5. The runner holds at most one command, in \<open>current\<close>. One call of \<^verbatim>\<open>update()\<close>
  \<^item> does nothing when the runner is not running;
  \<^item> with a current command, polls that command once, drops it when it has finished, and
    does not touch the file;
  \<^item> with no current command and a line available, reads exactly one line and makes the
    command parsed from it, if any, the current one (started);
  \<^item> with no current command and the file exhausted, clears \<open>running\<close>, sets
    \<open>finishedAll\<close> and calls \<^verbatim>\<open>robot.stop()\<close>.

  A program whose remaining lines all parse to no command reaches \<open>finishedAll\<close>, with the
  robot stopped, in one cycle per remaining line plus one, whatever the clock readings. The
  empty program is the case of no remaining line.
\<close>

theorem runner_one_command_at_a_time:
  "(ProgramRunner_update toFloat now (r, x) = (r1, x1) \<longrightarrow>
      (\<not> running r \<longrightarrow> r1 = r \<and> x1 = x) \<and>
      (running r \<longrightarrow> current r \<noteq> None \<longrightarrow>
         file_ptr r1 = file_ptr r \<and> running r1 \<and>
         x1 = snd (cmd_update (the (current r)) now x) \<and>
         current r1 = (if cmd_finished (fst (cmd_update (the (current r)) now x)) then None
                       else Some (fst (cmd_update (the (current r)) now x)))) \<and>
      (running r \<longrightarrow> current r = None \<longrightarrow> file_ptr r = Some f \<longrightarrow> available f \<longrightarrow>
         file_ptr r1 = Some (f\<lparr>idx := idx f + 1\<rparr>) \<and> running r1 \<and>
         finishedAll r1 = finishedAll r \<and>
         current r1 =
           map_option (\<lambda>c. fst (cmd_start c now (println (lines f ! idx f) x)))
             (parse toFloat (lines f ! idx f))) \<and>
      (running r \<longrightarrow> current r = None \<longrightarrow>
         file_ptr r = None \<or> \<not> available (the (file_ptr r)) \<longrightarrow>
         r1 = r\<lparr>running := False, finishedAll := True\<rparr> \<and> x1 = robot_stop x)) \<and>
   (running r \<longrightarrow> current r = None \<longrightarrow> file_ptr r = Some f \<longrightarrow>
      (\<forall>i. idx f \<le> i \<and> i < length (lines f) \<longrightarrow> parse toFloat (lines f ! i) = None) \<longrightarrow>
      length ts = length (lines f) - idx f + 1 \<longrightarrow>
      (\<exists>r2. run_cycles toFloat ts (r, x) =
              (r2, robot_stop (x\<lparr>serial := serial x @ drop (idx f) (lines f)\<rparr>)) \<and>
            finishedAll r2 \<and> \<not> running r2 \<and> current r2 = None))"
proof -
  have idle: "r1 = r \<and> x1 = x"
    if "ProgramRunner_update toFloat now (r, x) = (r1, x1)" "\<not> running r"
    using that by (simp add: update_idle)
  have poll: "file_ptr r1 = file_ptr r \<and> running r1 \<and>
         x1 = snd (cmd_update (the (current r)) now x) \<and>
         current r1 = (if cmd_finished (fst (cmd_update (the (current r)) now x)) then None
                       else Some (fst (cmd_update (the (current r)) now x)))"
    if u: "ProgramRunner_update toFloat now (r, x) = (r1, x1)" and "running r" "current r \<noteq> None"
  proof -
    from that obtain c where "current r = Some c"
      by auto
    with u \<open>running r\<close> update_poll [of r c toFloat now x] show ?thesis
      by auto
  qed
  have pull: "file_ptr r1 = Some (f\<lparr>idx := idx f + 1\<rparr>) \<and> running r1 \<and>
         finishedAll r1 = finishedAll r \<and>
         current r1 =
           map_option (\<lambda>c. fst (cmd_start c now (println (lines f ! idx f) x)))
             (parse toFloat (lines f ! idx f))"
    if "ProgramRunner_update toFloat now (r, x) = (r1, x1)" "running r" "current r = None"
      "file_ptr r = Some f" "available f"
    using that update_read [of r f toFloat now x] by (auto split: option.splits)
  have fin: "r1 = r\<lparr>running := False, finishedAll := True\<rparr> \<and> x1 = robot_stop x"
    if "ProgramRunner_update toFloat now (r, x) = (r1, x1)" "running r" "current r = None"
      "file_ptr r = None \<or> \<not> available (the (file_ptr r))"
    using that update_exhausted [of r toFloat now x] by simp
  have bound: "\<exists>r2. run_cycles toFloat ts (r, x) =
              (r2, robot_stop (x\<lparr>serial := serial x @ drop (idx f) (lines f)\<rparr>)) \<and>
            finishedAll r2 \<and> \<not> running r2 \<and> current r2 = None"
    if "running r" "current r = None" "file_ptr r = Some f"
      "\<forall>i. idx f \<le> i \<and> i < length (lines f) \<longrightarrow> parse toFloat (lines f ! i) = None"
      "length ts = length (lines f) - idx f + 1"
    using that by (rule skip_all)
  show ?thesis
    apply (intro conjI impI)
    subgoal using idle by blast
    subgoal using idle by blast
    subgoal using poll by blast
    subgoal using poll by blast
    subgoal using poll by blast
    subgoal using poll by blast
    subgoal using pull by blast
    subgoal using pull by blast
    subgoal using pull by blast
    subgoal using pull by blast
    subgoal using fin by blast
    subgoal using fin by blast
    subgoal using bound by blast
    done
qed

text \<open>Outputs with nothing done yet, and a runner just started on a program.\<close>

definition idle_io :: io where
  "idle_io = \<lparr>pins = (False, False, False, False), calls = [], serial = []\<rparr>"

lemmas engine_defs =
  ProgramRunner_update_def ProgramRunner_start_def ProgramRunner_stop_def ProgramRunner_new_def
  MemoryFile_new_def available_def readLine_def println_def
  robot_forward_def robot_backward_def robot_left90_def robot_right90_def robot_stop_def
  robot_paintOn_def robot_paintOff_def
  TimedCommand_new_def TimedCommand_start_def TimedCommand_update_def TimedCommand_finished_def
  ROTATE_90_MS_def to_ulong_def

lemmas parser_defs =
  parse_def COMMAND_TABLE_def startsWithToken_def startsWith_def charAt_def indexOf_def
  substring_def extractArgument_def trim_def isspace_def first_token_def

lemma parse_examples:
  "parse decimal_toFloat ''F 500'' = Some (CmdForward (TimedCommand_new 500))"
  "parse decimal_toFloat ''???'' = None"
  "parse decimal_toFloat ''F 700'' = Some (CmdForward (TimedCommand_new 700))"
  "parse decimal_toFloat ''R'' = Some (CmdRight90 (TimedCommand_new 420))"
  "parse decimal_toFloat ''paintON'' = Some (CmdPaintOn False)"
  "parse decimal_toFloat ''paintOFF'' = Some (CmdPaintOff False)"
  "parse decimal_toFloat ''WAIT abc'' = Some (CmdWait (TimedCommand_new 0))"
  "parse decimal_toFloat ''F'' = Some (CmdForward (TimedCommand_new 0))"
  by (simp_all add: parser_defs Let_def decimal_examples to_ulong_def ROTATE_90_MS_def)

definition started :: "string list \<Rightarrow> ProgramRunner" where
  "started prog =
     \<lparr>file_ptr = Some (MemoryFile_new prog), current = None, running = True, finishedAll = False\<rparr>"

lemma started_eq:
  "ProgramRunner_start (Some (MemoryFile_new prog)) (ProgramRunner_new, x) = (started prog, robot_stop x)"
  by (simp add: ProgramRunner_start_def ProgramRunner_stop_def ProgramRunner_new_def started_def)

subsection \<open>Lines that are not commands\<close>

text \<open>
  Claim C6. A line whose first token (after \<^verbatim>\<open>trim\<close>) is no token of the command table, the
  empty line included, parses to no command. When the runner reads such a line it echoes it,
  advances the file by one line and changes nothing else: it stays running and no driver is
  called. The program \<^verbatim>\<open>["F 500", "???", "F 500"]\<close>, with \<^verbatim>\<open>toFloat("500") = 500\<close> and polls
  that come once each drive has lasted 500 ms, calls \<^verbatim>\<open>forward()\<close> twice and ends with
  \<open>finishedAll\<close> set.
\<close>

theorem unknown_lines_are_skipped:
  "(first_token (trim line) \<notin> token ` set COMMAND_TABLE \<longrightarrow> parse toFloat line = None) \<and>
   (running r \<longrightarrow> current r = None \<longrightarrow> file_ptr r = Some f \<longrightarrow> available f \<longrightarrow>
      parse toFloat (lines f ! idx f) = None \<longrightarrow>
      ProgramRunner_update toFloat now (r, x) =
        (r\<lparr>file_ptr := Some (f\<lparr>idx := idx f + 1\<rparr>)\<rparr>, println (lines f ! idx f) x)) \<and>
   (toFloat ''500'' = 500 \<longrightarrow>
      (\<exists>r2 x2. run_cycles toFloat [0, 500, 500, 500, 1000, 1000]
                 (ProgramRunner_start (Some (MemoryFile_new [''F 500'', ''???'', ''F 500'']))
                    (ProgramRunner_new, x)) = (r2, x2) \<and>
               finishedAll r2 \<and> \<not> running r2 \<and>
               calls x2 = calls x @ [DStop, DForward, DStop, DForward, DStop, DStop]))"
proof (intro conjI impI)
  assume "first_token (trim line) \<notin> token ` set COMMAND_TABLE"
  then show "parse toFloat line = None"
    by (rule parse_unknown)
next
  assume "running r" "current r = None" "file_ptr r = Some f" "available f"
    "parse toFloat (lines f ! idx f) = None"
  then show "ProgramRunner_update toFloat now (r, x) =
        (r\<lparr>file_ptr := Some (f\<lparr>idx := idx f + 1\<rparr>)\<rparr>, println (lines f ! idx f) x)"
    using update_read [of r f toFloat now x] by simp
next
  assume tf: "toFloat ''500'' = 500"
  have p: "parse toFloat ''F 500'' = Some (CmdForward (TimedCommand_new 500))"
    "parse toFloat ''???'' = None"
    by (simp_all add: parser_defs Let_def tf to_ulong_def)
  show "\<exists>r2 x2. run_cycles toFloat [0, 500, 500, 500, 1000, 1000]
                 (ProgramRunner_start (Some (MemoryFile_new [''F 500'', ''???'', ''F 500'']))
                    (ProgramRunner_new, x)) = (r2, x2) \<and>
               finishedAll r2 \<and> \<not> running r2 \<and>
               calls x2 = calls x @ [DStop, DForward, DStop, DForward, DStop, DStop]"
    by (simp add: engine_defs p Let_def)
qed

text \<open>The theorem on a padded unknown line, the empty line, and the example program.\<close>

theorem unknown_lines_are_skipped_witness:
  "first_token (trim '' ???  '') = ''???'' \<and> parse decimal_toFloat '' ???  '' = None \<and>
   parse decimal_toFloat [] = None \<and>
   ProgramRunner_update decimal_toFloat 7 (started [''???'', ''F 500''], idle_io) =
     ((started [''???'', ''F 500''])\<lparr>file_ptr := Some \<lparr>lines = [''???'', ''F 500''], idx = 1\<rparr>\<rparr>,
      println ''???'' idle_io) \<and>
   decimal_toFloat ''500'' = 500 \<and>
   (\<exists>r2 x2. run_cycles decimal_toFloat [0, 500, 500, 500, 1000, 1000]
                 (ProgramRunner_start (Some (MemoryFile_new [''F 500'', ''???'', ''F 500'']))
                    (ProgramRunner_new, idle_io)) = (r2, x2) \<and>
               finishedAll r2 \<and> \<not> running r2 \<and>
               calls x2 = [DStop, DForward, DStop, DForward, DStop, DStop])"
proof -
  have t: "first_token (trim '' ???  '') = ''???''" "first_token (trim []) = []"
    by (simp_all add: trim_def isspace_def first_token_def)
  then have u: "first_token (trim '' ???  '') \<notin> token ` set COMMAND_TABLE"
    "first_token (trim []) \<notin> token ` set COMMAND_TABLE"
    by (simp_all add: COMMAND_TABLE_def)
  let ?r = "started [''???'', ''F 500'']"
  let ?f = "MemoryFile_new [''???'', ''F 500'']"
  have pre: "running ?r" "current ?r = None" "file_ptr ?r = Some ?f" "available ?f"
    "parse decimal_toFloat (lines ?f ! idx ?f) = None"
    by (simp_all add: started_def MemoryFile_new_def available_def parse_examples)
  note T1 = unknown_lines_are_skipped [of "'' ???  ''" decimal_toFloat ?r ?f 7 idle_io]
  note T2 = unknown_lines_are_skipped [of "[]" decimal_toFloat ?r ?f 7 idle_io]
  from T1 [THEN conjunct1] T2 [THEN conjunct1] u
  have "parse decimal_toFloat '' ???  '' = None" "parse decimal_toFloat [] = None"
    by blast+
  moreover from T1 [THEN conjunct2, THEN conjunct1] pre
  have "ProgramRunner_update decimal_toFloat 7 (?r, idle_io) =
        (?r\<lparr>file_ptr := Some (?f\<lparr>idx := idx ?f + 1\<rparr>)\<rparr>, println (lines ?f ! idx ?f) idle_io)"
    by blast
  moreover from T1 [THEN conjunct2, THEN conjunct2] decimal_examples(1)
  have "\<exists>r2 x2. run_cycles decimal_toFloat [0, 500, 500, 500, 1000, 1000]
                 (ProgramRunner_start (Some (MemoryFile_new [''F 500'', ''???'', ''F 500'']))
                    (ProgramRunner_new, idle_io)) = (r2, x2) \<and>
               finishedAll r2 \<and> \<not> running r2 \<and>
               calls x2 = calls idle_io @ [DStop, DForward, DStop, DForward, DStop, DStop]"
    by blast
  ultimately show ?thesis
    using t decimal_examples(1) by (simp add: MemoryFile_new_def idle_io_def)
qed

text \<open>The theorem on a program of two lines that are not commands.\<close>

theorem runner_one_command_at_a_time_witness:
  "ProgramRunner_update decimal_toFloat 0 (started [''???'', ''Foo 3''], idle_io) =
     ((started [''???'', ''Foo 3''])\<lparr>file_ptr := Some \<lparr>lines = [''???'', ''Foo 3''], idx = 1\<rparr>\<rparr>,
      println ''???'' idle_io) \<and>
   (\<exists>r2. run_cycles decimal_toFloat [0, 0, 0] (started [''???'', ''Foo 3''], idle_io) =
           (r2, robot_stop (idle_io\<lparr>serial := [''???'', ''Foo 3'']\<rparr>)) \<and>
         finishedAll r2 \<and> \<not> running r2 \<and> current r2 = None)"
proof -
  let ?r = "started [''???'', ''Foo 3'']"
  let ?f = "MemoryFile_new [''???'', ''Foo 3'']"
  let ?r1 = "?r\<lparr>file_ptr := Some \<lparr>lines = [''???'', ''Foo 3''], idx = 1\<rparr>\<rparr>"
  have p: "parse decimal_toFloat ''???'' = None" "parse decimal_toFloat ''Foo 3'' = None"
    by (simp_all add: parser_defs Let_def)
  have pre: "running ?r" "current ?r = None" "file_ptr ?r = Some ?f" "available ?f"
    by (simp_all add: started_def MemoryFile_new_def available_def)
  have step: "ProgramRunner_update decimal_toFloat 0 (?r, idle_io) = (?r1, println ''???'' idle_io)"
    using update_read [OF pre, of decimal_toFloat 0 idle_io] p
    by (simp add: MemoryFile_new_def)
  have skip: "\<forall>i. idx ?f \<le> i \<and> i < length (lines ?f) \<longrightarrow> parse decimal_toFloat (lines ?f ! i) = None"
    using p by (auto simp: MemoryFile_new_def less_Suc_eq numeral_2_eq_2)
  have len: "length [0, 0, 0 :: 32 word] = length (lines ?f) - idx ?f + 1"
    by (simp add: MemoryFile_new_def)
  note T = runner_one_command_at_a_time [of decimal_toFloat 0 ?r idle_io ?r1 "println ''???'' idle_io"
      ?f "[0, 0, 0]"]
  from T [THEN conjunct1] step pre
  have "file_ptr ?r1 = Some (?f\<lparr>idx := idx ?f + 1\<rparr>) \<and> running ?r1"
    by blast
  moreover from T [THEN conjunct2] pre skip len
  have "\<exists>r2. run_cycles decimal_toFloat [0, 0, 0] (?r, idle_io) =
              (r2, robot_stop (idle_io\<lparr>serial := serial idle_io @ drop (idx ?f) (lines ?f)\<rparr>)) \<and>
            finishedAll r2 \<and> \<not> running r2 \<and> current r2 = None"
    by blast
  ultimately show ?thesis
    using step by (simp add: MemoryFile_new_def idle_io_def)
qed


subsection \<open>The start edge\<close>

text \<open>
  Claim C7. A start edge is a pressed button (the pin reads LOW) after a cycle in which it
  was not pressed. In \<^verbatim>\<open>ProgramController::update\<close>:
  \<^item> an edge while run control is disabled prints the blocked report and changes nothing
    else: the runner and the drivers are as before;
  \<^item> an edge while the runner is running prints the already-running report, and the
    cycle goes on as a cycle without an edge would: the program is not opened and the
    runner is not restarted;
  \<^item> an edge while enabled and not running opens the selected program; if it exists the
    runner is started on it (after \<^verbatim>\<open>stop()\<close>), otherwise the not-found report is printed;
  \<^item> without an edge nothing is opened or started.
  In the last three cases the cycle then runs the second part of \<^verbatim>\<open>update\<close>,
  \<open>run_program\<close>.
\<close>

theorem start_edge_is_guarded:
  "(\<not> pin \<longrightarrow> \<not> last_btn c \<longrightarrow> \<not> enabled c \<longrightarrow>
      ProgramController_update name entries toFloat pin now (c, x) =
        (c\<lparr>last_btn := True\<rparr>, println ''[RUN] blocked by runControl'' x)) \<and>
   (\<not> pin \<longrightarrow> \<not> last_btn c \<longrightarrow> enabled c \<longrightarrow> running (runner c) \<longrightarrow>
      ProgramController_update name entries toFloat pin now (c, x) =
        run_program toFloat now (c\<lparr>last_btn := True\<rparr>, println ''[RUN] already running'' x)) \<and>
   (\<not> pin \<longrightarrow> \<not> last_btn c \<longrightarrow> enabled c \<longrightarrow> \<not> running (runner c) \<longrightarrow>
      ProgramController_update name entries toFloat pin now (c, x) =
        run_program toFloat now
          (case fs_open entries name of
             None \<Rightarrow> (c\<lparr>last_btn := True\<rparr>, println (''[RUN] file not found: '' @ name) x)
           | Some f \<Rightarrow>
               (c\<lparr>last_btn := True,
                  runner := \<lparr>file_ptr = Some f, current = None, running = True,
                             finishedAll = False\<rparr>\<rparr>,
                robot_stop (println (''[RUN] start: '' @ name) x)))) \<and>
   (pin \<or> last_btn c \<longrightarrow>
      ProgramController_update name entries toFloat pin now (c, x) =
        run_program toFloat now (c\<lparr>last_btn := \<not> pin\<rparr>, x))"
proof (intro conjI impI)
  assume "\<not> pin" "\<not> last_btn c" "\<not> enabled c"
  then show "ProgramController_update name entries toFloat pin now (c, x) =
        (c\<lparr>last_btn := True\<rparr>, println ''[RUN] blocked by runControl'' x)"
    by (simp add: ProgramController_update_def startRequested_def on_start_edge_def
        run_program_def Let_def)
next
  assume "\<not> pin" "\<not> last_btn c" "enabled c" "running (runner c)"
  then show "ProgramController_update name entries toFloat pin now (c, x) =
        run_program toFloat now (c\<lparr>last_btn := True\<rparr>, println ''[RUN] already running'' x)"
    by (simp add: ProgramController_update_def startRequested_def on_start_edge_def
        isRunning_def Let_def)
next
  assume "\<not> pin" "\<not> last_btn c" "enabled c" "\<not> running (runner c)"
  then show "ProgramController_update name entries toFloat pin now (c, x) =
        run_program toFloat now
          (case fs_open entries name of
             None \<Rightarrow> (c\<lparr>last_btn := True\<rparr>, println (''[RUN] file not found: '' @ name) x)
           | Some f \<Rightarrow>
               (c\<lparr>last_btn := True,
                  runner := \<lparr>file_ptr = Some f, current = None, running = True,
                             finishedAll = False\<rparr>\<rparr>,
                robot_stop (println (''[RUN] start: '' @ name) x)))"
    by (cases "runner c")
      (simp add: ProgramController_update_def startRequested_def on_start_edge_def
        isRunning_def Let_def ProgramRunner_start_def ProgramRunner_stop_def
        split: option.splits)
next
  assume "pin \<or> last_btn c"
  then show "ProgramController_update name entries toFloat pin now (c, x) =
        run_program toFloat now (c\<lparr>last_btn := \<not> pin\<rparr>, x)"
    by (auto simp add: ProgramController_update_def startRequested_def Let_def)
qed

text \<open>The controller as wired in the sketch, before the first cycle.\<close>

definition controller0 :: ProgramController where
  "controller0 = \<lparr>runner = ProgramRunner_new, last_btn = False, enabled = True\<rparr>"

lemmas controller_defs =
  ProgramController_update_def startRequested_def on_start_edge_def run_program_def
  isRunning_def isFinishedAll_def controller0_def idle_io_def

text \<open>
  The four cases on the sketch's file system: an edge while disabled, an edge while a
  \<^verbatim>\<open>WAIT\<close> program is running, an edge that starts \<^verbatim>\<open>square.txt\<close>, and a cycle with the button
  released.
\<close>

theorem start_edge_is_guarded_witness:
  "ProgramController_update ''square.txt'' FS_ENTRIES decimal_toFloat False 0
      (controller0\<lparr>enabled := False\<rparr>, idle_io) =
     (controller0\<lparr>enabled := False, last_btn := True\<rparr>,
      idle_io\<lparr>serial := [''[RUN] blocked by runControl'']\<rparr>) \<and>
   ProgramController_update ''square.txt'' FS_ENTRIES decimal_toFloat False 5
      (controller0\<lparr>runner := started [''WAIT 100'']\<rparr>, idle_io) =
     (controller0\<lparr>last_btn := True,
        runner := (started [''WAIT 100''])
          \<lparr>file_ptr := Some \<lparr>lines = [''WAIT 100''], idx = 1\<rparr>,
            current := Some (CmdWait \<lparr>duration = 100, startTime = 5, active = True\<rparr>)\<rparr>\<rparr>,
      robot_stop (idle_io\<lparr>serial := [''[RUN] already running'', ''WAIT 100'']\<rparr>)) \<and>
   ProgramController_update ''square.txt'' FS_ENTRIES decimal_toFloat False 0 (controller0, idle_io) =
     (controller0\<lparr>last_btn := True,
        runner := (started SQUARE)
          \<lparr>file_ptr := Some \<lparr>lines = SQUARE, idx = 1\<rparr>, current := Some (CmdPaintOn True)\<rparr>\<rparr>,
      idle_io\<lparr>pins := (False, False, False, False), calls := [DStop, DPaintOn],
        serial := [''[RUN] start: square.txt'', ''paintON'', ''[PAINT] ON'']\<rparr>) \<and>
   ProgramController_update ''square.txt'' FS_ENTRIES decimal_toFloat True 0 (controller0, idle_io) =
     (controller0\<lparr>last_btn := False\<rparr>, idle_io)"
proof -
  have w: "parse decimal_toFloat ''WAIT 100'' = Some (CmdWait (TimedCommand_new 100))"
    by (simp add: parser_defs Let_def decimal_toFloat_def is_digit_def to_ulong_def)
  note T1 = start_edge_is_guarded [of False "controller0\<lparr>enabled := False\<rparr>" "''square.txt''"
      FS_ENTRIES decimal_toFloat 0 idle_io]
  note T2 = start_edge_is_guarded [of False "controller0\<lparr>runner := started [''WAIT 100'']\<rparr>"
      "''square.txt''" FS_ENTRIES decimal_toFloat 5 idle_io]
  note T3 = start_edge_is_guarded [of False controller0 "''square.txt''" FS_ENTRIES
      decimal_toFloat 0 idle_io]
  note T4 = start_edge_is_guarded [of True controller0 "''square.txt''" FS_ENTRIES
      decimal_toFloat 0 idle_io]
  have "ProgramController_update ''square.txt'' FS_ENTRIES decimal_toFloat False 0
      (controller0\<lparr>enabled := False\<rparr>, idle_io) =
     (controller0\<lparr>enabled := False, last_btn := True\<rparr>,
      idle_io\<lparr>serial := [''[RUN] blocked by runControl'']\<rparr>)"
    using T1 [THEN conjunct1] by (simp add: controller0_def println_def idle_io_def)
  moreover have "ProgramController_update ''square.txt'' FS_ENTRIES decimal_toFloat False 5
      (controller0\<lparr>runner := started [''WAIT 100'']\<rparr>, idle_io) =
     (controller0\<lparr>last_btn := True,
        runner := (started [''WAIT 100''])
          \<lparr>file_ptr := Some \<lparr>lines = [''WAIT 100''], idx = 1\<rparr>,
            current := Some (CmdWait \<lparr>duration = 100, startTime = 5, active = True\<rparr>)\<rparr>\<rparr>,
      robot_stop (idle_io\<lparr>serial := [''[RUN] already running'', ''WAIT 100'']\<rparr>))"
    using T2 [THEN conjunct2, THEN conjunct1]
    by (simp add: controller0_def started_def run_program_def engine_defs w isFinishedAll_def
        idle_io_def Let_def)
  moreover have "ProgramController_update ''square.txt'' FS_ENTRIES decimal_toFloat False 0
      (controller0, idle_io) =
     (controller0\<lparr>last_btn := True,
        runner := (started SQUARE)
          \<lparr>file_ptr := Some \<lparr>lines = SQUARE, idx = 1\<rparr>, current := Some (CmdPaintOn True)\<rparr>\<rparr>,
      idle_io\<lparr>pins := (False, False, False, False), calls := [DStop, DPaintOn],
        serial := [''[RUN] start: square.txt'', ''paintON'', ''[PAINT] ON'']\<rparr>)"
    using T3 [THEN conjunct2, THEN conjunct2, THEN conjunct1]
    by (simp add: controller0_def started_def run_program_def engine_defs parse_examples
        isFinishedAll_def idle_io_def Let_def FS_ENTRIES_def SQUARE_def)
  moreover have "ProgramController_update ''square.txt'' FS_ENTRIES decimal_toFloat True 0
      (controller0, idle_io) = (controller0\<lparr>last_btn := False\<rparr>, idle_io)"
    using T4 [THEN conjunct2, THEN conjunct2, THEN conjunct2]
    by (simp add: controller0_def run_program_def engine_defs isFinishedAll_def)
  ultimately show ?thesis
    by blast
qed

subsection \<open>The completion report\<close>

text \<open>\<^verbatim>\<open>loop()\<close> run once per element of a list of inputs: the level of the start pin and the clock.\<close>

fun loop_cycles ::
  "string \<Rightarrow> (string \<times> string list) list \<Rightarrow> (string \<Rightarrow> real) \<Rightarrow> (bool \<times> 32 word) list \<Rightarrow>
     ProgramController \<times> io \<Rightarrow> ProgramController \<times> io" where
  "loop_cycles name entries toFloat [] s = s"
| "loop_cycles name entries toFloat ((pin, now) # rest) s =
     loop_cycles name entries toFloat rest (ProgramController_update name entries toFloat pin now s)"

lemma finished_again:
  assumes "enabled c" "finishedAll (runner c)" "\<not> running (runner c)" "pin \<or> last_btn c"
  shows "ProgramController_update name entries toFloat pin now (c, x) =
           (c\<lparr>last_btn := \<not> pin\<rparr>, println ''[RUN] finished'' x)"
  using assms
  by (cases c)
    (auto simp add: ProgramController_update_def startRequested_def run_program_def Let_def
      ProgramRunner_update_def isFinishedAll_def)

text \<open>
  Claim C8 asks for one completion report per run. The sketch's own \<^verbatim>\<open>square.txt\<close> is started
  by a button press at time 0 and polled once a second with the button released. Each of the
  ten commands takes two cycles, cycle 21 finds the file exhausted and prints the report, and
  cycles 22 and 23 print it again: \<^verbatim>\<open>finishedAll\<close> stays set and \<^verbatim>\<open>update\<close> tests the flag, not
  the transition.
\<close>

theorem finished_is_reported_every_cycle:
  "serial (snd (loop_cycles ''square.txt'' FS_ENTRIES decimal_toFloat
      [(False, 0), (True, 1000), (True, 2000), (True, 3000), (True, 4000), (True, 5000),
       (True, 6000), (True, 7000), (True, 8000), (True, 9000), (True, 10000), (True, 11000),
       (True, 12000), (True, 13000), (True, 14000), (True, 15000), (True, 16000), (True, 17000),
       (True, 18000), (True, 19000), (True, 20000), (True, 21000), (True, 22000)]
      (controller0, idle_io))) =
   [''[RUN] start: square.txt'', ''paintON'', ''[PAINT] ON'', ''F 700'', ''R'', ''F 700'', ''R'',
    ''F 700'', ''R'', ''F 700'', ''R'', ''paintOFF'', ''[PAINT] OFF'',
    ''[RUN] finished'', ''[RUN] finished'', ''[RUN] finished'']"
  by (simp add: controller_defs engine_defs parse_examples Let_def FS_ENTRIES_def SQUARE_def)

end

